theory Spec2Isabelle
  imports Main "HOL-Library.Char_ord" "HOL-Library.List_Lexorder"
begin

section \<open>JavaScript objects as the i18n scripts use them\<close>

text \<open>
  The three i18n scripts (\<^verbatim>\<open>split-i18n-namespaces.mjs\<close>, \<^verbatim>\<open>sync-i18n-keys.mjs\<close>,
  \<^verbatim>\<open>generate-i18n-types.mjs\<close>) keep every translation table in a plain JavaScript object.
  Three properties of such objects decide what the scripts compute, so the model has them:

  \<^item> a property read \<^verbatim>\<open>o[k]\<close> that finds no own property continues on \<^verbatim>\<open>Object.prototype\<close>,
    whose members (\<^verbatim>\<open>constructor\<close>, \<^verbatim>\<open>toString\<close>, \<^verbatim>\<open>__proto__\<close>, ...) are neither strings nor
    \<^verbatim>\<open>undefined\<close>;
  \<^item> an assignment \<^verbatim>\<open>o['__proto__'] = v\<close> to an object without an own property of that name
    calls the setter inherited from \<^verbatim>\<open>Object.prototype\<close> and creates no own property
    (\<^verbatim>\<open>JSON.parse\<close> defines own properties directly and is not affected);
  \<^item> \<^verbatim>\<open>Object.keys\<close> lists array-index keys first, in ascending numeric order, and the other
    keys after them in the order of their creation.

  Values are the strings of a translation table, \<^verbatim>\<open>undefined\<close>, or a member inherited from
  \<^verbatim>\<open>Object.prototype\<close> (named by its property name).
\<close>

datatype jsval = Undefined | Str string | Proto_member string

text \<open>Own enumerable properties, in the order \<^verbatim>\<open>Object.keys\<close> reports them.\<close>

type_synonym obj = "(string \<times> jsval) list"

definition Object_keys :: "(string \<times> 'a) list \<Rightarrow> string list" where
  "Object_keys ob = map fst ob"

text \<open>The property names of \<^verbatim>\<open>Object.prototype\<close> in Node.js, the runtime of the scripts.\<close>

definition Object_prototype_names :: "string list" where
  "Object_prototype_names =
     [''constructor'', ''__defineGetter__'', ''__defineSetter__'', ''hasOwnProperty'',
      ''__lookupGetter__'', ''__lookupSetter__'', ''isPrototypeOf'', ''propertyIsEnumerable'',
      ''toString'', ''valueOf'', ''__proto__'', ''toLocaleString'']"

text \<open>
  An array index is the canonical decimal numeral of a number below \<open>2^32 - 1\<close>:
  digits only, no leading zero except for \<^verbatim>\<open>"0"\<close> itself.
\<close>

definition is_digit :: "char \<Rightarrow> bool" where
  "is_digit c = (c \<in> set ''0123456789'')"

definition dec_val :: "string \<Rightarrow> int" where
  "dec_val s = foldl (\<lambda>n c. 10 * n + (of_char c - 48)) 0 s"

definition is_array_index :: "string \<Rightarrow> bool" where
  "is_array_index s =
     (case s of
        [] \<Rightarrow> False
      | c # cs \<Rightarrow> list_all is_digit s \<and> (if c = CHR ''0'' then cs = [] else True)
                 \<and> dec_val s < 4294967295)"

fun insert_index :: "string \<Rightarrow> 'a \<Rightarrow> (string \<times> 'a) list \<Rightarrow> (string \<times> 'a) list" where
  "insert_index k v [] = [(k, v)]"
| "insert_index k v ((k', v') # rest) =
     (if is_array_index k' \<and> dec_val k' < dec_val k
      then (k', v') # insert_index k v rest
      else (k, v) # (k', v') # rest)"

text \<open>
  Defining an own data property (what \<^verbatim>\<open>JSON.parse\<close> does for each member, and what an
  assignment does when no setter is inherited): an existing key keeps its place and takes
  the new value, a new array index goes among the indices, any other new key goes last.
\<close>

definition obj_define :: "(string \<times> 'a) list \<Rightarrow> string \<Rightarrow> 'a \<Rightarrow> (string \<times> 'a) list" where
  "obj_define ob k v =
     (if k \<in> set (Object_keys ob)
      then map (\<lambda>(k', v'). if k' = k then (k', v) else (k', v')) ob
      else if is_array_index k then insert_index k v ob
      else ob @ [(k, v)])"

text \<open>
  The assignment \<^verbatim>\<open>ob[k] = v\<close>. The scripts only ever assign strings, numbers, fresh
  object literals or the value just read under the same key, so the \<^verbatim>\<open>__proto__\<close> setter
  never changes a prototype here; it only swallows the assignment.
\<close>

definition obj_set :: "(string \<times> 'a) list \<Rightarrow> string \<Rightarrow> 'a \<Rightarrow> (string \<times> 'a) list" where
  "obj_set ob k v =
     (if k = ''__proto__'' \<and> k \<notin> set (Object_keys ob) then ob else obj_define ob k v)"

text \<open>The read \<^verbatim>\<open>ob[k]\<close>: the own property, else the member of \<^verbatim>\<open>Object.prototype\<close>, else
  \<^verbatim>\<open>undefined\<close>.\<close>

definition obj_get :: "obj \<Rightarrow> string \<Rightarrow> jsval" where
  "obj_get ob k =
     (case map_of ob k of
        Some v \<Rightarrow> v
      | None \<Rightarrow> if k \<in> set Object_prototype_names then Proto_member k else Undefined)"

text \<open>\<^verbatim>\<open>delete ob[k]\<close>.\<close>

definition obj_delete :: "(string \<times> 'a) list \<Rightarrow> string \<Rightarrow> (string \<times> 'a) list" where
  "obj_delete ob k = filter (\<lambda>(k', v'). k' \<noteq> k) ob"

text \<open>JavaScript truthiness of the values above (the empty string is falsy).\<close>

fun truthy :: "jsval \<Rightarrow> bool" where
  "truthy Undefined = False"
| "truthy (Str s) = (s \<noteq> [])"
| "truthy (Proto_member n) = True"

subsection \<open>Translation files\<close>

text \<open>
  A translation file holds one JSON object from keys to strings. What \<^verbatim>\<open>JSON.parse\<close> reads
  from it and what \<^verbatim>\<open>JSON.stringify\<close> puts into it is the member list of that object in the
  order of the text; the rest of the text, its layout, is kept beside the member list in
  the model of the files below. \<^verbatim>\<open>JSON.parse\<close> defines one own
  property per member (a repeated key keeps its first place and its last value);
  \<^verbatim>\<open>JSON.stringify\<close> emits the own properties in \<^verbatim>\<open>Object.keys\<close> order and leaves out those
  whose value is \<^verbatim>\<open>undefined\<close> or a function.
\<close>

type_synonym members = "(string \<times> string) list"

definition JSON_parse :: "members \<Rightarrow> obj" where
  "JSON_parse ms = foldl (\<lambda>ob (k, s). obj_define ob k (Str s)) [] ms"

definition JSON_stringify :: "obj \<Rightarrow> members" where
  "JSON_stringify ob = concat (map (\<lambda>(k, v). case v of Str s \<Rightarrow> [(k, s)] | _ \<Rightarrow> []) ob)"

section \<open>Namespace registry (i18n-config.mjs)\<close>

definition NAMESPACES :: "string list" where
  "NAMESPACES =
     [''common'', ''analytics'', ''session'', ''settings'', ''tools'', ''error'',
      ''message'', ''renderers'', ''update'', ''feedback'', ''recentEdits'']"

definition LANGUAGES :: "string list" where
  "LANGUAGES = [''en'', ''ko'', ''ja'', ''zh-CN'', ''zh-TW'']"

definition BASE_LANG :: string where
  "BASE_LANG = ''en''"

section \<open>Prefix classifier (split-i18n-namespaces.mjs)\<close>

definition PREFIX_TO_NAMESPACE :: obj where
  "PREFIX_TO_NAMESPACE =
     [(''common'', Str ''common''),
      (''status'', Str ''common''),
      (''time'', Str ''common''),
      (''copyButton'', Str ''common''),
      (''analytics'', Str ''analytics''),
      (''session'', Str ''session''),
      (''project'', Str ''session''),
      (''settingsManager'', Str ''settings''),
      (''settings'', Str ''settings''),
      (''folderPicker'', Str ''settings''),
      (''tools'', Str ''tools''),
      (''toolResult'', Str ''tools''),
      (''toolUseRenderer'', Str ''tools''),
      (''collapsibleToolResult'', Str ''tools''),
      (''error'', Str ''error''),
      (''message'', Str ''message''),
      (''messages'', Str ''message''),
      (''messageViewer'', Str ''message''),
      (''messageContentDisplay'', Str ''message''),
      (''advancedTextDiff'', Str ''renderers''),
      (''agentProgressGroup'', Str ''renderers''),
      (''agentTaskGroup'', Str ''renderers''),
      (''assistantMessageDetails'', Str ''renderers''),
      (''bashCodeExecutionToolResultRenderer'', Str ''renderers''),
      (''captureMode'', Str ''renderers''),
      (''citationRenderer'', Str ''renderers''),
      (''claudeContentArrayRenderer'', Str ''renderers''),
      (''claudeSessionHistoryRenderer'', Str ''renderers''),
      (''claudeToolUseDisplay'', Str ''renderers''),
      (''codebaseContextRenderer'', Str ''renderers''),
      (''codeExecutionToolResultRenderer'', Str ''renderers''),
      (''commandOutputDisplay'', Str ''renderers''),
      (''commandRenderer'', Str ''renderers''),
      (''contentArray'', Str ''renderers''),
      (''diffViewer'', Str ''renderers''),
      (''fileContent'', Str ''renderers''),
      (''fileEditRenderer'', Str ''renderers''),
      (''fileHistorySnapshotRenderer'', Str ''renderers''),
      (''fileListRenderer'', Str ''renderers''),
      (''gitWorkflowRenderer'', Str ''renderers''),
      (''globalSearch'', Str ''renderers''),
      (''imageRenderer'', Str ''renderers''),
      (''mcpRenderer'', Str ''renderers''),
      (''progressRenderer'', Str ''renderers''),
      (''queueOperationRenderer'', Str ''renderers''),
      (''structuredPatch'', Str ''renderers''),
      (''summaryMessageRenderer'', Str ''renderers''),
      (''systemMessageRenderer'', Str ''renderers''),
      (''taskNotification'', Str ''renderers''),
      (''taskOperation'', Str ''renderers''),
      (''terminalStreamRenderer'', Str ''renderers''),
      (''textEditorCodeExecutionToolResultRenderer'', Str ''renderers''),
      (''thinkingRenderer'', Str ''renderers''),
      (''toolSearchToolResultRenderer'', Str ''renderers''),
      (''webFetchToolResultRenderer'', Str ''renderers''),
      (''webSearchRenderer'', Str ''renderers''),
      (''updateModal'', Str ''update''),
      (''updateSettingsModal'', Str ''update''),
      (''updateIntroModal'', Str ''update''),
      (''simpleUpdateModal'', Str ''update''),
      (''upToDateNotification'', Str ''update''),
      (''feedback'', Str ''feedback''),
      (''recentEdits'', Str ''recentEdits'')]"

text \<open>\<^verbatim>\<open>key.split('.')[0]\<close>: the characters before the first dot (the whole key if it has none).\<close>

definition first_segment :: "string \<Rightarrow> string" where
  "first_segment key = takeWhile (\<lambda>c. c \<noteq> CHR ''.'') key"

text \<open>\<^verbatim>\<open>return PREFIX_TO_NAMESPACE[prefix] || 'misc'\<close>.\<close>

definition getNamespace :: "string \<Rightarrow> jsval" where
  "getNamespace key =
     (let prefix = first_segment key;
          found = obj_get PREFIX_TO_NAMESPACE prefix
      in if truthy found then found else Str ''misc'')"

definition getKeyWithinNamespace :: "string \<Rightarrow> string" where
  "getKeyWithinNamespace key = key"

section \<open>The translation tree on disk and the effects of a run\<close>

text \<open>
  Paths below \<^verbatim>\<open>LOCALES_DIR\<close>: the legacy flat file \<^verbatim>\<open>{lang}.json\<close> and the namespace file
  \<^verbatim>\<open>{lang}/{ns}.json\<close>. A file either parses to a table or makes \<^verbatim>\<open>JSON.parse\<close> throw.
  A table is a JSON object whose members are strings; files holding other JSON values are
  not part of the model. Strings are compared character code by character code, as
  \<^verbatim>\<open>sort()\<close> compares them.

  The text of a file that parses is given by two things: the list of its members in the
  order of the text (a repeated name is allowed there, the last one wins in \<^verbatim>\<open>JSON.parse\<close>),
  and its layout, which stands for everything else in the text: the white space between
  the tokens, the spelling of the escapes inside the strings, the end of the file. Two files
  have the same text exactly when they have the same layout and the same member list.
  \<open>Stringified\<close> is the layout of the text \<^verbatim>\<open>JSON.stringify(o, null, 2) + '\n'\<close>, the only one
  the scripts write; \<open>Other_layout i\<close> are the other layouts a file may have been given by
  hand or by another tool. Reading a file ignores its layout.
\<close>

datatype path = Legacy_file string | Ns_file string string

datatype layout = Stringified | Other_layout nat

datatype content = Malformed | Table layout members

datatype error = ENOENT path | SyntaxError path | TypeError

text \<open>One constructor per \<^verbatim>\<open>console.log\<close> / \<^verbatim>\<open>console.warn\<close> call of the three scripts.\<close>

datatype line =
    Sync_start
  | Warn_no_base string
  | Ns_header string nat
  | Keys_added string nat
  | Keys_removed string nat
  | In_sync string
  | Sync_done
  | Totals_header
  | Total string nat
  | Split_start
  | Split_targets "string list"
  | Split_ns_count nat
  | Lang_header string
  | Ns_count string nat
  | Check_header
  | Count_mismatch string string nat nat
  | All_consistent
  | Summary_header
  | Summary_ns string nat
  | Summary_total nat nat
  | Warn_no_file path
  | Types_written
  | Types_summary nat nat nat
  | Ns_stats_header

text \<open>The artifact of the type generator: the parts of \<^verbatim>\<open>types.generated.ts\<close> that depend
  on the translation files (the timestamp in its header comment is left out).\<close>

record types_artifact =
  total_keys :: nat
  namespace_count :: nat
  I18nNamespace :: "string list"
  NamespaceKeys :: "(string \<times> string \<times> string list) list"
  TranslationKey :: "string list"
  TranslationPrefix :: "string list"

datatype event =
    Exists path
  | Exists_dir string
  | Mkdir string
  | Read path
  | Write path content
  | Write_types types_artifact
  | Print line

text \<open>The state a script runs in: the files and locale directories below \<^verbatim>\<open>LOCALES_DIR\<close>,
  and the trace of what the run has done so far (oldest first).\<close>

record world =
  files :: "path \<rightharpoonup> content"
  dirs :: "string set"
  trace :: "event list"

definition emit :: "event \<Rightarrow> world \<Rightarrow> world" where
  "emit e w = w\<lparr>trace := trace w @ [e]\<rparr>"

definition console_log :: "line \<Rightarrow> world \<Rightarrow> world" where
  "console_log l w = emit (Print l) w"

definition existsSync :: "path \<Rightarrow> world \<Rightarrow> bool \<times> world" where
  "existsSync p w = (files w p \<noteq> None, emit (Exists p) w)"

definition existsSync_dir :: "string \<Rightarrow> world \<Rightarrow> bool \<times> world" where
  "existsSync_dir d w = (d \<in> dirs w, emit (Exists_dir d) w)"

definition mkdirSync :: "string \<Rightarrow> world \<Rightarrow> world" where
  "mkdirSync d w = emit (Mkdir d) (w\<lparr>dirs := insert d (dirs w)\<rparr>)"

text \<open>\<^verbatim>\<open>JSON.parse(fs.readFileSync(p, 'utf-8'))\<close>: throws when the file is missing or malformed.\<close>

definition read_json :: "path \<Rightarrow> world \<Rightarrow> (error + obj) \<times> world" where
  "read_json p w =
     (case files w p of
        None \<Rightarrow> Inl (ENOENT p)
      | Some Malformed \<Rightarrow> Inl (SyntaxError p)
      | Some (Table ly ms) \<Rightarrow> Inr (JSON_parse ms),
      emit (Read p) w)"

text \<open>\<^verbatim>\<open>fs.writeFileSync(p, JSON.stringify(ob, null, 2) + '\n', 'utf-8')\<close>; both callers have
  made sure of the directory just before.\<close>

definition write_json :: "path \<Rightarrow> obj \<Rightarrow> world \<Rightarrow> world" where
  "write_json p ob w =
     emit (Write p (Table Stringified (JSON_stringify ob)))
       (w\<lparr>files := (files w)(p \<mapsto> Table Stringified (JSON_stringify ob))\<rparr>)"

text \<open>A \<^verbatim>\<open>for ... of\<close> loop whose body may throw: the first exception ends the loop and the
  state reached so far stays.\<close>

fun for_each :: "('a \<Rightarrow> world \<Rightarrow> error option \<times> world) \<Rightarrow> 'a list \<Rightarrow> world \<Rightarrow> error option \<times> world" where
  "for_each f [] w = (None, w)"
| "for_each f (x # xs) w =
     (case f x w of
        (None, w') \<Rightarrow> for_each f xs w'
      | (Some e, w') \<Rightarrow> (Some e, w'))"

text \<open>The same with a loop-carried variable.\<close>

fun fold_each :: "('a \<Rightarrow> 'b \<Rightarrow> world \<Rightarrow> (error + 'b) \<times> world) \<Rightarrow> 'a list \<Rightarrow> 'b \<Rightarrow> world \<Rightarrow> (error + 'b) \<times> world" where
  "fold_each f [] acc w = (Inr acc, w)"
| "fold_each f (x # xs) acc w =
     (case f x acc w of
        (Inr acc', w') \<Rightarrow> fold_each f xs acc' w'
      | (Inl e, w') \<Rightarrow> (Inl e, w'))"

section \<open>Key synchronizer (sync-i18n-keys.mjs)\<close>

definition TARGET_LANGUAGES :: "string list" where
  "TARGET_LANGUAGES = filter (\<lambda>lang. lang \<noteq> ''en'') LANGUAGES"

text \<open>\<^verbatim>\<open>[...enKeys].filter(k => !langKeys.has(k))\<close> and \<^verbatim>\<open>[...langKeys].filter(k => !enKeys.has(k))\<close>;
  the two sets are built from \<^verbatim>\<open>Object.keys\<close>, whose entries are distinct.\<close>

definition missing_keys :: "obj \<Rightarrow> obj \<Rightarrow> string list" where
  "missing_keys en langData = filter (\<lambda>k. k \<notin> set (Object_keys langData)) (Object_keys en)"

definition extra_keys :: "obj \<Rightarrow> obj \<Rightarrow> string list" where
  "extra_keys en langData = filter (\<lambda>k. k \<notin> set (Object_keys en)) (Object_keys langData)"

text \<open>\<^verbatim>\<open>for (const key of missingKeys) langData[key] = en[key]\<close>.\<close>

definition add_missing :: "obj \<Rightarrow> obj \<Rightarrow> string list \<Rightarrow> obj" where
  "add_missing en langData ks = foldl (\<lambda>d k. obj_set d k (obj_get en k)) langData ks"

text \<open>\<^verbatim>\<open>for (const key of extraKeys) delete langData[key]\<close>.\<close>

definition remove_extra :: "obj \<Rightarrow> string list \<Rightarrow> obj" where
  "remove_extra langData ks = foldl obj_delete langData ks"

text \<open>The rebuild in the base table's order:
  \<^verbatim>\<open>for (const key of Object.keys(en)) if (langData[key] !== undefined) sorted[key] = langData[key]\<close>.\<close>

definition sort_by_base :: "obj \<Rightarrow> obj \<Rightarrow> obj" where
  "sort_by_base en langData =
     foldl (\<lambda>sorted k. if obj_get langData k \<noteq> Undefined
                        then obj_set sorted k (obj_get langData k) else sorted)
       [] (Object_keys en)"

text \<open>The body of the inner loop (lines 36 to 86), for one namespace and one target locale.\<close>

definition sync_lang :: "string \<Rightarrow> obj \<Rightarrow> string \<Rightarrow> world \<Rightarrow> error option \<times> world" where
  "sync_lang ns en lang w0 =
     (let langPath = Ns_file lang ns;
          (dir_there, w1) = existsSync_dir lang w0;
          w2 = (if dir_there then w1 else mkdirSync lang w1);
          (file_there, w3) = existsSync langPath w2;
          (parsed, w4) = (if file_there then read_json langPath w3 else (Inr [], w3))
      in case parsed of
           Inl e \<Rightarrow> (Some e, w4)
         | Inr langData \<Rightarrow>
             let missingKeys = missing_keys en langData;
                 extraKeys = extra_keys en langData;
                 w5 = (if length missingKeys > 0
                       then console_log (Keys_added lang (length missingKeys)) w4 else w4);
                 langData1 = (if length missingKeys > 0
                              then add_missing en langData missingKeys else langData);
                 w6 = (if length extraKeys > 0
                       then console_log (Keys_removed lang (length extraKeys)) w5 else w5);
                 langData2 = (if length extraKeys > 0
                              then remove_extra langData1 extraKeys else langData1);
                 w7 = (if length missingKeys = 0 \<and> length extraKeys = 0
                       then console_log (In_sync lang) w6 else w6);
                 sorted = sort_by_base en langData2
             in (None, write_json langPath sorted w7))"

text \<open>The body of the outer loop (lines 24 to 87), for one namespace.\<close>

definition sync_namespace :: "string \<Rightarrow> world \<Rightarrow> error option \<times> world" where
  "sync_namespace ns w0 =
     (let enPath = Ns_file ''en'' ns;
          (base_there, w1) = existsSync enPath w0
      in if \<not> base_there then (None, console_log (Warn_no_base ns) w1)
         else case read_json enPath w1 of
                (Inl e, w2) \<Rightarrow> (Some e, w2)
              | (Inr en, w2) \<Rightarrow>
                  for_each (sync_lang ns en) TARGET_LANGUAGES
                    (console_log (Ns_header ns (length (Object_keys en))) w2))"

text \<open>The final report (lines 93 to 104): one total per locale, summed over the declared
  namespaces whose file exists.\<close>

definition count_keys :: "string \<Rightarrow> string \<Rightarrow> nat \<Rightarrow> world \<Rightarrow> (error + nat) \<times> world" where
  "count_keys lang ns total_n w0 =
     (let nsPath = Ns_file lang ns;
          (there, w1) = existsSync nsPath w0
      in if there
         then case read_json nsPath w1 of
                (Inl e, w2) \<Rightarrow> (Inl e, w2)
              | (Inr data, w2) \<Rightarrow> (Inr (total_n + length (Object_keys data)), w2)
         else (Inr total_n, w1))"

definition report_total :: "string \<Rightarrow> world \<Rightarrow> error option \<times> world" where
  "report_total lang w0 =
     (case fold_each (count_keys lang) NAMESPACES 0 w0 of
        (Inl e, w1) \<Rightarrow> (Some e, w1)
      | (Inr total_n, w1) \<Rightarrow> (None, console_log (Total lang total_n) w1))"

definition main_sync :: "world \<Rightarrow> error option \<times> world" where
  "main_sync w0 =
     (case for_each sync_namespace NAMESPACES (console_log Sync_start w0) of
        (Some e, w1) \<Rightarrow> (Some e, w1)
      | (None, w1) \<Rightarrow>
          for_each report_total (''en'' # TARGET_LANGUAGES)
            (console_log Totals_header (console_log Sync_done w1)))"

section \<open>Namespace splitter (split-i18n-namespaces.mjs)\<close>

text \<open>\<^verbatim>\<open>for (const ns of [...NAMESPACES, 'misc']) namespaceData[ns] = {}\<close>.\<close>

definition namespaceData_init :: "(string \<times> obj) list" where
  "namespaceData_init = foldl (\<lambda>nd ns. obj_set nd ns []) [] (NAMESPACES @ [''misc''])"

text \<open>
  The body of the classification loop, \<^verbatim>\<open>namespaceData[ns][nsKey] = value\<close>. When
  \<open>getNamespace\<close> has returned an inherited member instead of a name, the member's string
  form is no property of \<^verbatim>\<open>namespaceData\<close>, the lookup gives \<^verbatim>\<open>undefined\<close>, and the assignment
  throws a TypeError. (A returned name is always one of the twelve keys of
  \<^verbatim>\<open>namespaceData\<close>, see \<open>getNamespace_Str\<close>.)
\<close>

definition classify_entry :: "(string \<times> obj) list \<Rightarrow> string \<times> jsval \<Rightarrow> error + (string \<times> obj) list" where
  "classify_entry nd entry =
     (case entry of (key, v) \<Rightarrow>
        (case getNamespace key of
           Str ns \<Rightarrow>
             (case map_of nd ns of
                Some tbl \<Rightarrow> Inr (obj_set nd ns (obj_set tbl (getKeyWithinNamespace key) v))
              | None \<Rightarrow> Inl TypeError)
         | _ \<Rightarrow> Inl TypeError))"

fun classify_all :: "(string \<times> obj) list \<Rightarrow> (string \<times> jsval) list \<Rightarrow> error + (string \<times> obj) list" where
  "classify_all nd [] = Inr nd"
| "classify_all nd (entry # entries) =
     (case classify_entry nd entry of
        Inl e \<Rightarrow> Inl e
      | Inr nd' \<Rightarrow> classify_all nd' entries)"

text \<open>The body of the writing loop (lines 183 to 197): an empty partition writes nothing; the
  others are rebuilt with their keys sorted and written.\<close>

definition write_namespace ::
  "string \<Rightarrow> (string \<times> nat) list \<times> world \<Rightarrow> string \<times> obj \<Rightarrow> (string \<times> nat) list \<times> world" where
  "write_namespace lang acc part =
     (case (acc, part) of ((stats, w), (ns, nsData)) \<Rightarrow>
        let keyCount = length (Object_keys nsData)
        in if keyCount = 0 then (stats, w)
           else let sorted = foldl (\<lambda>sorted k. obj_set sorted k (obj_get nsData k)) []
                               (sort (Object_keys nsData))
                in (obj_set stats ns keyCount, write_json (Ns_file lang ns) sorted w))"

definition splitLanguage :: "string \<Rightarrow> world \<Rightarrow> (error + (string \<times> nat) list) \<times> world" where
  "splitLanguage lang w0 =
     (case read_json (Legacy_file lang) w0 of
        (Inl e, w1) \<Rightarrow> (Inl e, w1)
      | (Inr data, w1) \<Rightarrow>
          let (dir_there, w2) = existsSync_dir lang w1;
              w3 = (if dir_there then w2 else mkdirSync lang w2)
          in case classify_all namespaceData_init data of
               Inl e \<Rightarrow> (Inl e, w3)
             | Inr namespaceData \<Rightarrow>
                 let (stats, w4) = foldl (write_namespace lang) ([], w3) namespaceData
                 in (Inr stats, w4))"

text \<open>The first loop of \<open>main\<close> (lines 212 to 220); \<open>allStats\<close> is the loop-carried variable.\<close>

definition split_one ::
  "string \<Rightarrow> (string \<times> (string \<times> nat) list) list \<Rightarrow> world
     \<Rightarrow> (error + (string \<times> (string \<times> nat) list) list) \<times> world" where
  "split_one lang allStats w0 =
     (case splitLanguage lang (console_log (Lang_header lang) w0) of
        (Inl e, w1) \<Rightarrow> (Inl e, w1)
      | (Inr stats, w1) \<Rightarrow>
          (Inr (obj_set allStats lang stats),
           foldl (\<lambda>w (ns, n). console_log (Ns_count ns n) w) w1 stats))"

text \<open>\<^verbatim>\<open>stats[ns] || 0\<close> for a namespace name \<open>ns\<close>.\<close>

definition count_or_zero :: "(string \<times> nat) list \<Rightarrow> string \<Rightarrow> nat" where
  "count_or_zero stats ns = (case map_of stats ns of Some n \<Rightarrow> n | None \<Rightarrow> 0)"

text \<open>The consistency check of the splitter (lines 227 to 239) for one locale.\<close>

definition check_lang ::
  "(string \<times> (string \<times> nat) list) list \<Rightarrow> (string \<times> nat) list \<Rightarrow> bool \<times> world \<Rightarrow> string
     \<Rightarrow> bool \<times> world" where
  "check_lang allStats baseStats acc lang =
     (if lang = ''en'' then acc
      else foldl (\<lambda>(consistent, w) ns.
                    let enCount = count_or_zero baseStats ns;
                        langCount = count_or_zero (case map_of allStats lang of Some s \<Rightarrow> s | None \<Rightarrow> []) ns
                    in if enCount \<noteq> langCount
                       then (False, console_log (Count_mismatch lang ns langCount enCount) w)
                       else (consistent, w))
             acc (Object_keys baseStats))"

definition main_split :: "world \<Rightarrow> error option \<times> world" where
  "main_split w0 =
     (let w1 = console_log (Split_ns_count (length NAMESPACES + 1))
                 (console_log (Split_targets LANGUAGES) (console_log Split_start w0))
      in case fold_each split_one LANGUAGES [] w1 of
           (Inl e, w2) \<Rightarrow> (Some e, w2)
         | (Inr allStats, w2) \<Rightarrow>
             (case map_of allStats ''en'' of
                None \<Rightarrow> (Some TypeError, console_log Check_header w2)
              | Some baseStats \<Rightarrow>
                  let (consistent, w3) =
                        foldl (check_lang allStats baseStats) (True, console_log Check_header w2) LANGUAGES;
                      w4 = (if consistent then console_log All_consistent w3 else w3);
                      w5 = foldl (\<lambda>w (ns, n). console_log (Summary_ns ns n) w)
                             (console_log Summary_header w4) baseStats
                  in (None, console_log (Summary_total (sum_list (map snd baseStats))
                                          (length (Object_keys baseStats))) w5)))"

section \<open>Type generator (generate-i18n-types.mjs)\<close>








section \<open>Auxiliary notions for the proofs\<close>

text \<open>The order of \<^verbatim>\<open>Object.keys\<close>: whenever a later key is an array index, every earlier key
  is a smaller array index.\<close>

definition js_before :: "string \<Rightarrow> string \<Rightarrow> bool" where
  "js_before a b = (if is_array_index b then is_array_index a \<and> dec_val a < dec_val b else True)"

definition digit_of :: "char \<Rightarrow> int" where
  "digit_of c = of_char c - 48"

definition wf_obj :: "(string \<times> 'a) list \<Rightarrow> bool" where
  "wf_obj ob = (distinct (Object_keys ob) \<and> sorted_wrt js_before (Object_keys ob))"

fun is_str :: "jsval \<Rightarrow> bool" where
  "is_str (Str s) = True"
| "is_str v = False"

fun str_of :: "jsval \<Rightarrow> string" where
  "str_of (Str s) = s"
| "str_of v = []"

definition all_str :: "obj \<Rightarrow> bool" where
  "all_str ob = list_all (\<lambda>(k, v). is_str v) ob"

text \<open>What one pass of the inner loop writes for a base table and a target table: the
  composition of the steps of \<open>sync_lang\<close> between reading and writing.\<close>

definition synced :: "obj \<Rightarrow> obj \<Rightarrow> members" where
  "synced en langData =
     JSON_stringify (sort_by_base en
       (remove_extra (add_missing en langData (missing_keys en langData))
          (extra_keys en langData)))"

text \<open>The console lines of one pass of the inner loop, and the events before its read.\<close>

definition sync_report :: "obj \<Rightarrow> obj \<Rightarrow> string \<Rightarrow> line list" where
  "sync_report en langData lang =
     (if missing_keys en langData = [] then []
      else [Keys_added lang (length (missing_keys en langData))]) @
     (if extra_keys en langData = [] then []
      else [Keys_removed lang (length (extra_keys en langData))]) @
     (if missing_keys en langData = [] \<and> extra_keys en langData = [] then [In_sync lang] else [])"

definition dir_events :: "string \<Rightarrow> world \<Rightarrow> event list" where
  "dir_events lang w = Exists_dir lang # (if lang \<in> dirs w then [] else [Mkdir lang])"

text \<open>A step from one state to a later one that appends only events satisfying \<open>P\<close> and
  leaves every file outside \<open>W\<close> as it was.\<close>

definition run_within :: "(event \<Rightarrow> bool) \<Rightarrow> (path \<Rightarrow> bool) \<Rightarrow> world \<Rightarrow> world \<Rightarrow> bool" where
  "run_within P W w w' =
     ((\<exists>evs. trace w' = trace w @ evs \<and> list_all P evs) \<and> (\<forall>p. W p \<or> files w' p = files w p))"

text \<open>The files the synchronizer may test or read, those it may write, and the events it can
  emit.\<close>

fun sync_reads :: "path \<Rightarrow> bool" where
  "sync_reads (Ns_file l n) = (l \<in> set LANGUAGES \<and> n \<in> set NAMESPACES)"
| "sync_reads (Legacy_file l) = False"

fun sync_writes :: "path \<Rightarrow> bool" where
  "sync_writes (Ns_file l n) = (l \<in> set TARGET_LANGUAGES \<and> n \<in> set NAMESPACES)"
| "sync_writes (Legacy_file l) = False"

fun sync_line :: "line \<Rightarrow> bool" where
  "sync_line Sync_start = True"
| "sync_line (Warn_no_base n) = True"
| "sync_line (Ns_header n k) = True"
| "sync_line (Keys_added l k) = True"
| "sync_line (Keys_removed l k) = True"
| "sync_line (In_sync l) = True"
| "sync_line Sync_done = True"
| "sync_line Totals_header = True"
| "sync_line (Total l k) = True"
| "sync_line other = False"

fun sync_event :: "event \<Rightarrow> bool" where
  "sync_event (Exists p) = sync_reads p"
| "sync_event (Read p) = sync_reads p"
| "sync_event (Write p c) = sync_writes p"
| "sync_event (Exists_dir d) = (d \<in> set TARGET_LANGUAGES)"
| "sync_event (Mkdir d) = (d \<in> set TARGET_LANGUAGES)"
| "sync_event (Print l) = sync_line l"
| "sync_event (Write_types a) = False"

text \<open>The console output of a run: the printed lines of its trace, in order.\<close>

fun printed :: "event \<Rightarrow> line list" where
  "printed (Print l) = [l]"
| "printed e = []"

definition console :: "world \<Rightarrow> line list" where
  "console w = concat (map printed (trace w))"

text \<open>The table a namespace file holds (empty when the file is absent), its number of keys,
  and the per-locale sum the final report prints.\<close>

definition table_at :: "(path \<rightharpoonup> content) \<Rightarrow> string \<Rightarrow> string \<Rightarrow> obj" where
  "table_at fs lang ns = (case fs (Ns_file lang ns) of Some (Table ly ms) \<Rightarrow> JSON_parse ms | _ \<Rightarrow> [])"

definition key_count :: "(path \<rightharpoonup> content) \<Rightarrow> string \<Rightarrow> string \<Rightarrow> nat" where
  "key_count fs lang ns = length (Object_keys (table_at fs lang ns))"

definition total_count :: "(path \<rightharpoonup> content) \<Rightarrow> string \<Rightarrow> nat" where
  "total_count fs lang = sum_list (map (key_count fs lang) NAMESPACES)"

definition no_malformed :: "(path \<rightharpoonup> content) \<Rightarrow> bool" where
  "no_malformed fs = (\<forall>p. fs p \<noteq> Some Malformed)"

text \<open>The files after the synchronizer has gone through the namespaces \<open>nss\<close>, and what it
  prints for one namespace, both in terms of the files it started from.\<close>

definition synced_files :: "string list \<Rightarrow> (path \<rightharpoonup> content) \<Rightarrow> path \<rightharpoonup> content" where
  "synced_files nss fs p =
     (case p of
        Ns_file l n \<Rightarrow>
          if n \<in> set nss \<and> l \<in> set TARGET_LANGUAGES \<and> fs (Ns_file ''en'' n) \<noteq> None
          then Some (Table Stringified (synced (table_at fs ''en'' n) (table_at fs l n)))
          else fs p
      | Legacy_file l \<Rightarrow> fs p)"

definition ns_report :: "(path \<rightharpoonup> content) \<Rightarrow> string \<Rightarrow> line list" where
  "ns_report fs n =
     (if fs (Ns_file ''en'' n) = None then [Warn_no_base n]
      else Ns_header n (length (Object_keys (table_at fs ''en'' n))) #
           concat (map (\<lambda>l. sync_report (table_at fs ''en'' n) (table_at fs l n) l) TARGET_LANGUAGES))"

text \<open>The same state with one file replaced (or removed, for \<open>None\<close>).\<close>

definition with_file :: "path \<Rightarrow> content option \<Rightarrow> world \<Rightarrow> world" where
  "with_file q c w = w\<lparr>files := (files w)(q := c)\<rparr>"

text \<open>A consistent tree: for each declared namespace, every non-base locale's key set equals
  the base locale's key set (an absent file has no keys). The second predicate says that no
  base table has a key \<^verbatim>\<open>__proto__\<close>.\<close>

definition consistent_tree :: "(path \<rightharpoonup> content) \<Rightarrow> bool" where
  "consistent_tree fs =
     list_all (\<lambda>n. list_all (\<lambda>l. set (Object_keys (table_at fs l n)) =
                                   set (Object_keys (table_at fs ''en'' n)))
                      TARGET_LANGUAGES)
       NAMESPACES"

definition proto_free :: "(path \<rightharpoonup> content) \<Rightarrow> bool" where
  "proto_free fs = list_all (\<lambda>n. ''__proto__'' \<notin> set (Object_keys (table_at fs ''en'' n))) NAMESPACES"

text \<open>The events the splitter can emit while it reads the legacy files of the locales \<open>rs\<close>
  and writes namespace files of the locales \<open>ws\<close>.\<close>

fun split_event :: "string list \<Rightarrow> string list \<Rightarrow> event \<Rightarrow> bool" where
  "split_event rs ws (Read p) = (case p of Legacy_file l \<Rightarrow> l \<in> set rs | Ns_file l n \<Rightarrow> False)"
| "split_event rs ws (Write p c) = (case p of Ns_file l n \<Rightarrow> l \<in> set ws | Legacy_file l \<Rightarrow> False)"
| "split_event rs ws (Exists_dir d) = (d \<in> set ws)"
| "split_event rs ws (Mkdir d) = (d \<in> set ws)"
| "split_event rs ws (Print l) = True"
| "split_event rs ws (Exists p) = False"
| "split_event rs ws (Write_types a) = False"

fun split_writes :: "string list \<Rightarrow> path \<Rightarrow> bool" where
  "split_writes ws (Ns_file l n) = (l \<in> set ws)"
| "split_writes ws (Legacy_file l) = False"

text \<open>The keys of a flat table that the classifier sends to the namespace \<open>ns\<close>.\<close>

definition partition_keys :: "members \<Rightarrow> string \<Rightarrow> string set" where
  "partition_keys ms ns = {k \<in> fst ` set ms. getNamespace k = Str ns}"

section \<open>Example trees\<close>

text \<open>The convergence example of the specification: the base table has the keys a, b, c and
  the Korean table the keys a, d.\<close>

definition convergence_tree :: world where
  "convergence_tree =
     \<lparr>files = [Ns_file ''en'' ''common'' \<mapsto> Table Stringified [(''a'', ''A''), (''b'', ''B''), (''c'', ''C'')],
               Ns_file ''ko'' ''common'' \<mapsto> Table Stringified [(''a'', ''old''), (''d'', ''gone'')]],
      dirs = {''en'', ''ko''}, trace = []\<rparr>"

text \<open>A tree in which the base locale has no \<^verbatim>\<open>common.json\<close> while the Korean locale has one
  with a single key.\<close>

definition orphan_tree :: world where
  "orphan_tree =
     \<lparr>files = [Ns_file ''en'' ''error'' \<mapsto> Table Stringified [(''error.x'', ''X'')],
               Ns_file ''ko'' ''common'' \<mapsto> Table Stringified [(''common.a'', ''A'')]],
      dirs = {''en'', ''ko''}, trace = []\<rparr>"

text \<open>A tree that also holds a \<^verbatim>\<open>misc.json\<close> for the Korean locale, as the splitter leaves
  one behind for keys with an unknown prefix.\<close>

definition misc_tree :: world where
  "misc_tree =
     \<lparr>files = [Ns_file ''en'' ''common'' \<mapsto> Table Stringified [(''common.ok'', ''OK'')],
               Ns_file ''ko'' ''misc'' \<mapsto> Table Stringified [(''legacy.key'', ''v'')]],
      dirs = {''en'', ''ko''}, trace = []\<rparr>"

text \<open>A consistent tree whose Korean file lists the two keys in another order than the base
  file does, and whose Japanese file has the base file's members in another layout (say, an
  indentation of four spaces).\<close>

definition reorder_tree :: world where
  "reorder_tree =
     \<lparr>files = [Ns_file ''en'' ''common'' \<mapsto> Table Stringified [(''b'', ''B''), (''a'', ''A'')],
               Ns_file ''ko'' ''common'' \<mapsto> Table Stringified [(''a'', ''x''), (''b'', ''y'')],
               Ns_file ''ja'' ''common'' \<mapsto> Table (Other_layout 4) [(''b'', ''B''), (''a'', ''A'')],
               Ns_file ''zh-CN'' ''common'' \<mapsto> Table Stringified [(''b'', ''B''), (''a'', ''A'')],
               Ns_file ''zh-TW'' ''common'' \<mapsto> Table Stringified [(''b'', ''B''), (''a'', ''A'')]],
      dirs = {''en'', ''ko'', ''ja'', ''zh-CN'', ''zh-TW''}, trace = []\<rparr>"

text \<open>Two trees whose base table has a key named \<^verbatim>\<open>__proto__\<close>; in the second the Japanese
  table has every key of the base table.\<close>

definition proto_tree :: world where
  "proto_tree =
     \<lparr>files = [Ns_file ''en'' ''common'' \<mapsto> Table Stringified [(''__proto__'', ''P''), (''a'', ''A'')],
               Ns_file ''ko'' ''common'' \<mapsto> Table Stringified [(''a'', ''old'')]],
      dirs = {''en'', ''ko''}, trace = []\<rparr>"

definition proto_order_tree :: world where
  "proto_order_tree =
     \<lparr>files = [Ns_file ''en'' ''settings'' \<mapsto> Table Stringified [(''z'', ''1''), (''__proto__'', ''2''), (''a'', ''3'')],
               Ns_file ''ja'' ''settings'' \<mapsto> Table Stringified [(''a'', ''x''), (''z'', ''y''), (''__proto__'', ''w'')]],
      dirs = {''en'', ''ja''}, trace = []\<rparr>"

text \<open>Legacy flat files for the splitter: a tree in which the Korean file is missing while
  the English file (before it in \<open>LANGUAGES\<close>) and the Japanese file (after it) are fine,
  and a tree whose English file has a key with the prefix \<^verbatim>\<open>constructor\<close>.\<close>

definition split_tree :: world where
  "split_tree =
     \<lparr>files = [Legacy_file ''en'' \<mapsto> Table Stringified [(''common.ok'', ''OK''), (''zzz.other'', ''Z'')],
               Legacy_file ''ja'' \<mapsto> Table Stringified [(''common.ok'', ''JA'')]],
      dirs = {}, trace = []\<rparr>"

definition inherited_prefix_tree :: world where
  "inherited_prefix_tree =
     \<lparr>files = [Legacy_file ''en'' \<mapsto> Table Stringified [(''common.ok'', ''OK''), (''constructor.title'', ''T'')]],
      dirs = {}, trace = []\<rparr>"


section \<open>Proofs: decimal numerals and property order\<close>

lemma is_digit_code: "is_digit c \<Longrightarrow> 48 \<le> (of_char c :: int) \<and> (of_char c :: int) \<le> 57"
  by (auto simp: is_digit_def)

lemma digit_range: "is_digit c \<Longrightarrow> 0 \<le> digit_of c \<and> digit_of c < 10"
  unfolding digit_of_def using is_digit_code [of c] by linarith

lemma digit_inj: "is_digit c \<Longrightarrow> is_digit d \<Longrightarrow> digit_of c = digit_of d \<Longrightarrow> c = d"
proof -
  assume "is_digit c" "is_digit d" "digit_of c = digit_of d"
  then have "(of_char c :: int) = of_char d"
    unfolding digit_of_def by linarith
  then show "c = d" by (simp only: of_char_eq_iff)
qed

lemma digit_zero: "is_digit c \<Longrightarrow> c \<noteq> CHR ''0'' \<Longrightarrow> 1 \<le> digit_of c"
proof -
  assume c: "is_digit c" "c \<noteq> CHR ''0''"
  have "(of_char CHR ''0'' :: int) = 48" by simp
  moreover have "(of_char c :: int) \<noteq> of_char CHR ''0''"
    using c(2) by (simp only: of_char_eq_iff not_False_eq_True)
  ultimately show ?thesis unfolding digit_of_def using is_digit_code [OF c(1)] by linarith
qed

lemma dec_val_snoc: "dec_val (s @ [c]) = 10 * dec_val s + digit_of c"
  by (simp add: dec_val_def digit_of_def)

lemma dec_val_Nil: "dec_val [] = 0" by (simp add: dec_val_def)

lemma dec_val_bounds: "list_all is_digit s \<Longrightarrow> 0 \<le> dec_val s \<and> dec_val s < 10 ^ length s"
proof (induction s rule: rev_induct)
  case Nil then show ?case by (simp add: dec_val_Nil)
next
  case (snoc c s)
  then have "0 \<le> dec_val s" "dec_val s < 10 ^ length s" "0 \<le> digit_of c" "digit_of c < 10"
    by (auto simp: digit_range)
  then have "0 \<le> 10 * dec_val s + digit_of c" "10 * dec_val s + digit_of c < 10 * 10 ^ length s"
    by linarith+
  then show ?case by (simp add: dec_val_snoc)
qed

lemma dec_val_Cons: "dec_val (c # s) = digit_of c * 10 ^ length s + dec_val s"
proof (induction s rule: rev_induct)
  case Nil show ?case by (simp add: dec_val_def digit_of_def)
next
  case (snoc d s)
  have "dec_val (c # s @ [d]) = 10 * dec_val (c # s) + digit_of d"
    using dec_val_snoc [of "c # s" d] by simp
  then show ?case by (simp add: snoc dec_val_snoc algebra_simps)
qed

lemma dec_val_lower:
  assumes "is_digit c" "c \<noteq> CHR ''0''" "list_all is_digit s"
  shows "10 ^ length s \<le> dec_val (c # s)"
proof -
  have "1 \<le> digit_of c" using assms(1,2) by (rule digit_zero)
  then have "1 * 10 ^ length s \<le> digit_of c * (10 ^ length s :: int)"
    by (intro mult_right_mono) simp_all
  moreover have "0 \<le> dec_val s" using dec_val_bounds [OF assms(3)] by simp
  ultimately show ?thesis unfolding dec_val_Cons by linarith
qed

lemma dec_val_inj_same_length:
  "length a = length b \<Longrightarrow> list_all is_digit a \<Longrightarrow> list_all is_digit b \<Longrightarrow> dec_val a = dec_val b \<Longrightarrow> a = b"
proof (induction a arbitrary: b rule: rev_induct)
  case Nil then show ?case by simp
next
  case (snoc c a)
  then obtain d b' where b: "b = b' @ [d]" by (cases b rule: rev_cases) auto
  from snoc.prems b have len: "length a = length b'" and da: "list_all is_digit a" and db: "list_all is_digit b'"
    and c: "is_digit c" and d: "is_digit d" by auto
  from snoc.prems(4) b have eq: "10 * dec_val a + digit_of c = 10 * dec_val b' + digit_of d"
    by (simp add: dec_val_snoc)
  have "0 \<le> digit_of c" "digit_of c < 10" "0 \<le> digit_of d" "digit_of d < 10"
    using c d digit_range by auto
  with eq have "digit_of c = digit_of d" "dec_val a = dec_val b'" by presburger+
  then show ?case using snoc.IH [OF len da db] b digit_inj [OF c d] by simp
qed

lemma index_length_bounds:
  assumes "is_array_index s"
  shows "list_all is_digit s" and "s \<noteq> []" and "s \<noteq> ''0'' \<Longrightarrow> 10 ^ (length s - 1) \<le> dec_val s"
proof -
  from assms obtain c cs where s: "s = c # cs" by (cases s) (auto simp: is_array_index_def)
  with assms show d: "list_all is_digit s" and "s \<noteq> []" by (auto simp: is_array_index_def)
  assume "s \<noteq> ''0''"
  with assms s have "c \<noteq> CHR ''0''" "is_digit c" by (auto simp: is_array_index_def split: if_splits)
  then show "10 ^ (length s - 1) \<le> dec_val s" using dec_val_lower d s by simp
qed

lemma dec_val_inj:
  assumes "is_array_index a" "is_array_index b" "dec_val a = dec_val b"
  shows "a = b"
proof (cases "a = ''0'' \<or> b = ''0''")
  case True
  have z: "dec_val ''0'' = 0" by (simp add: dec_val_def)
  { fix s assume s: "is_array_index s" "dec_val s = 0"
    have "s = ''0''"
    proof (rule ccontr)
      assume "s \<noteq> ''0''"
      then have "10 ^ (length s - 1) \<le> dec_val s" using index_length_bounds(3) [OF s(1)] by simp
      moreover have "(0::int) < 10 ^ (length s - 1)" by simp
      ultimately show False using s(2) by linarith
    qed }
  then show ?thesis using True assms z by metis
next
  case False
  then have la: "10 ^ (length a - 1) \<le> dec_val a" and lb: "10 ^ (length b - 1) \<le> dec_val b"
    using index_length_bounds(3) [OF assms(1)] index_length_bounds(3) [OF assms(2)] by auto
  have ua: "dec_val a < 10 ^ length a" and ub: "dec_val b < 10 ^ length b"
    using dec_val_bounds [OF index_length_bounds(1) [OF assms(1)]]
      dec_val_bounds [OF index_length_bounds(1) [OF assms(2)]] by auto
  have "(10::int) ^ (length a - 1) < 10 ^ length b" using la ub assms(3) by linarith
  then have 1: "length a - 1 < length b" by (simp add: power_strict_increasing_iff)
  have "(10::int) ^ (length b - 1) < 10 ^ length a" using lb ua assms(3) by linarith
  then have 2: "length b - 1 < length a" by (simp add: power_strict_increasing_iff)
  have "length a = length b" using 1 2 index_length_bounds(2) assms by (cases a; cases b) auto
  then show ?thesis using dec_val_inj_same_length index_length_bounds(1) assms by blast
qed

lemma insert_index_eq:
  "insert_index k v ob =
     takeWhile (\<lambda>(k', v'). is_array_index k' \<and> dec_val k' < dec_val k) ob @ (k, v) #
     dropWhile (\<lambda>(k', v'). is_array_index k' \<and> dec_val k' < dec_val k) ob"
  by (induction k v ob rule: insert_index.induct) auto

lemma keys_insert_index: "set (Object_keys (insert_index k v ob)) = insert k (set (Object_keys ob))"
  by (induction k v ob rule: insert_index.induct) (auto simp: Object_keys_def)

lemma map_of_insert_index:
  "k \<notin> set (Object_keys ob) \<Longrightarrow> map_of (insert_index k v ob) = (map_of ob)(k \<mapsto> v)"
  by (induction k v ob rule: insert_index.induct) (auto simp: fun_upd_twist Object_keys_def)

lemma distinct_insert_index:
  "k \<notin> set (Object_keys ob) \<Longrightarrow> distinct (Object_keys ob) \<Longrightarrow> distinct (Object_keys (insert_index k v ob))"
proof (induction ob)
  case Nil then show ?case by (simp add: Object_keys_def)
next
  case (Cons a ob)
  obtain k' v' where a: "a = (k', v')" by (cases a)
  from Cons.prems have 1: "k \<notin> set (Object_keys ob)" "distinct (Object_keys ob)" "k \<noteq> k'" "k' \<notin> set (Object_keys ob)"
    by (auto simp: Object_keys_def a)
  have "k' \<notin> set (Object_keys (insert_index k v ob))" using 1 by (simp add: keys_insert_index)
  moreover have "distinct (Object_keys (insert_index k v ob))" using Cons.IH 1 by simp
  ultimately show ?case using 1 Cons.prems by (simp add: a Object_keys_def)
qed

lemma js_before_trans: "js_before a b \<Longrightarrow> js_before b c \<Longrightarrow> js_before a c"
  by (auto simp: js_before_def split: if_splits)

lemma sorted_insert_index:
  assumes "is_array_index k" "k \<notin> set (Object_keys ob)" "sorted_wrt js_before (Object_keys ob)"
  shows "sorted_wrt js_before (Object_keys (insert_index k v ob))"
  using assms(2,3)
proof (induction ob)
  case Nil then show ?case by (simp add: Object_keys_def)
next
  case (Cons a ob)
  obtain k' v' where a: "a = (k', v')" by (cases a)
  from Cons.prems have nk: "k \<noteq> k'" "k \<notin> set (Object_keys ob)"
    and s: "\<forall>y \<in> set (Object_keys ob). js_before k' y" "sorted_wrt js_before (Object_keys ob)"
    by (auto simp: Object_keys_def a)
  show ?case
  proof (cases "is_array_index k' \<and> dec_val k' < dec_val k")
    case True
    then have "js_before k' k" using assms(1) by (simp add: js_before_def)
    then have "\<forall>y \<in> set (Object_keys (insert_index k v ob)). js_before k' y"
      using s(1) by (simp add: keys_insert_index)
    then show ?thesis using True Cons.IH [OF nk(2) s(2)] by (simp add: a Object_keys_def)
  next
    case False
    have kk': "js_before k k'"
    proof (cases "is_array_index k'")
      case True
      with False have "dec_val k \<le> dec_val k'" by simp
      moreover have "dec_val k \<noteq> dec_val k'" using dec_val_inj [OF assms(1) True] nk(1) by blast
      ultimately show ?thesis using assms(1) True by (simp add: js_before_def)
    next
      case False then show ?thesis by (simp add: js_before_def)
    qed
    then have "\<forall>y \<in> set (Object_keys ob). js_before k y" using s(1) js_before_trans by blast
    then show ?thesis using False kk' Cons.prems by (auto simp: a Object_keys_def)
  qed
qed

lemma insert_index_append:
  "\<forall>k' \<in> set (Object_keys ob). is_array_index k' \<and> dec_val k' < dec_val k \<Longrightarrow> insert_index k v ob = ob @ [(k, v)]"
  by (induction k v ob rule: insert_index.induct) (auto simp: Object_keys_def)

lemma keys_map_update:
  "Object_keys (map (\<lambda>(k', v'). if k' = k then (k', v) else (k', v')) ob) = Object_keys ob"
  by (induction ob) (auto simp: Object_keys_def)

lemma map_of_map_update_at:
  "map_of (map (\<lambda>(k', v'). if k' = k then (k', v) else (k', v')) ob) x =
     (if x = k then (if k \<in> set (Object_keys ob) then Some v else None) else map_of ob x)"
  by (induction ob) (force simp: Object_keys_def)+

lemma map_of_map_update:
  "k \<in> set (Object_keys ob) \<Longrightarrow>
   map_of (map (\<lambda>(k', v'). if k' = k then (k', v) else (k', v')) ob) = (map_of ob)(k \<mapsto> v)"
  by (rule ext) (simp add: map_of_map_update_at)

lemma keys_obj_define: "set (Object_keys (obj_define ob k v)) = insert k (set (Object_keys ob))"
  by (auto simp: obj_define_def keys_map_update keys_insert_index) (auto simp: Object_keys_def)

lemma map_of_obj_define: "map_of (obj_define ob k v) = (map_of ob)(k \<mapsto> v)"
proof -
  have "k \<notin> set (Object_keys ob) \<Longrightarrow> map_of (ob @ [(k, v)]) = (map_of ob)(k \<mapsto> v)"
    by (induction ob) (auto simp: Object_keys_def)
  then show ?thesis
    by (simp add: obj_define_def map_of_map_update map_of_insert_index)
qed

lemma distinct_obj_define:
  "distinct (Object_keys ob) \<Longrightarrow> distinct (Object_keys (obj_define ob k v))"
  by (auto simp: obj_define_def keys_map_update distinct_insert_index) (auto simp: Object_keys_def)

lemma sorted_obj_define:
  assumes "sorted_wrt js_before (Object_keys ob)"
  shows "sorted_wrt js_before (Object_keys (obj_define ob k v))"
proof -
  have "\<not> is_array_index k \<Longrightarrow> sorted_wrt js_before (Object_keys (ob @ [(k, v)]))"
    using assms by (simp add: Object_keys_def sorted_wrt_append js_before_def)
  then show ?thesis
    using assms by (simp add: obj_define_def keys_map_update sorted_insert_index)
qed

lemma obj_define_append:
  assumes "k \<notin> set (Object_keys ob)" "\<forall>k' \<in> set (Object_keys ob). js_before k' k"
  shows "obj_define ob k v = ob @ [(k, v)]"
proof (cases "is_array_index k")
  case True
  with assms(2) have "\<forall>k' \<in> set (Object_keys ob). is_array_index k' \<and> dec_val k' < dec_val k"
    by (simp add: js_before_def)
  then show ?thesis using assms(1) True by (simp add: obj_define_def insert_index_append)
next
  case False
  then show ?thesis using assms(1) by (simp add: obj_define_def)
qed

lemma wf_obj_Nil: "wf_obj []" by (simp add: wf_obj_def Object_keys_def)

lemma wf_obj_define: "wf_obj ob \<Longrightarrow> wf_obj (obj_define ob k v)"
  by (simp add: wf_obj_def distinct_obj_define sorted_obj_define)

lemma all_str_define: "all_str ob \<Longrightarrow> all_str (obj_define ob k (Str s))"
proof -
  have "\<And>k'. all_str ob \<Longrightarrow> all_str (insert_index k' (Str s) ob)"
    by (induction ob) (auto simp: all_str_def)
  then show "all_str ob \<Longrightarrow> all_str (obj_define ob k (Str s))"
    by (auto simp: obj_define_def all_str_def list_all_iff split: if_splits)
qed

lemma JSON_parse_fold:
  "wf_obj ob \<Longrightarrow> all_str ob \<Longrightarrow>
   wf_obj (foldl (\<lambda>ob (k, s). obj_define ob k (Str s)) ob ms) \<and>
   all_str (foldl (\<lambda>ob (k, s). obj_define ob k (Str s)) ob ms) \<and>
   set (Object_keys (foldl (\<lambda>ob (k, s). obj_define ob k (Str s)) ob ms)) = set (Object_keys ob) \<union> fst ` set ms \<and>
   map_of (foldl (\<lambda>ob (k, s). obj_define ob k (Str s)) ob ms) = map_of ob ++ map_of (map (\<lambda>(k, s). (k, Str s)) (rev ms))"
proof (induction ms arbitrary: ob)
  case Nil then show ?case by simp
next
  case (Cons m ms)
  obtain k s where m: "m = (k, s)" by (cases m)
  let ?ob = "obj_define ob k (Str s)"
  have "wf_obj ?ob" "all_str ?ob" using Cons.prems by (simp_all add: wf_obj_define all_str_define)
  from Cons.IH [OF this] show ?case
    apply (simp add: m keys_obj_define map_of_obj_define)
    apply (rule ext)
    apply (auto simp: map_add_def map_of_append split: option.splits)
    done
qed

lemma wf_JSON_parse: "wf_obj (JSON_parse ms)"
  and all_str_JSON_parse: "all_str (JSON_parse ms)"
  and keys_JSON_parse: "set (Object_keys (JSON_parse ms)) = fst ` set ms"
  and map_of_JSON_parse: "map_of (JSON_parse ms) = map_of (map (\<lambda>(k, s). (k, Str s)) (rev ms))"
  using JSON_parse_fold [of "[]" ms]
  by (simp_all add: JSON_parse_def wf_obj_Nil all_str_def Object_keys_def)

lemma keys_obj_set:
  "set (Object_keys (obj_set ob k v)) =
     (if k = ''__proto__'' \<and> k \<notin> set (Object_keys ob) then set (Object_keys ob)
      else insert k (set (Object_keys ob)))"
  by (auto simp: obj_set_def keys_obj_define)

lemma map_of_obj_set:
  "map_of (obj_set ob k v) =
     (if k = ''__proto__'' \<and> k \<notin> set (Object_keys ob) then map_of ob else (map_of ob)(k \<mapsto> v))"
  by (auto simp: obj_set_def map_of_obj_define)

lemma map_of_eq_None_keys: "map_of ob k = None \<longleftrightarrow> k \<notin> set (Object_keys ob)"
  by (simp add: map_of_eq_None_iff Object_keys_def)

lemma fold_obj_set:
  assumes "distinct ks" "sorted_wrt js_before ks"
  shows "foldl (\<lambda>sorted k. if c k then obj_set sorted k (g k) else sorted) [] ks =
         map (\<lambda>k. (k, g k)) (filter (\<lambda>k. c k \<and> k \<noteq> ''__proto__'') ks)"
  using assms
proof (induction ks rule: rev_induct)
  case Nil then show ?case by simp
next
  case (snoc k ks)
  let ?acc = "map (\<lambda>k. (k, g k)) (filter (\<lambda>k. c k \<and> k \<noteq> ''__proto__'') ks)"
  from snoc.prems have d: "distinct ks" "k \<notin> set ks" and s: "sorted_wrt js_before ks" "\<forall>k' \<in> set ks. js_before k' k"
    by (auto simp: sorted_wrt_append)
  have acc: "foldl (\<lambda>sorted k. if c k then obj_set sorted k (g k) else sorted) [] ks = ?acc"
    using snoc.IH d s by simp
  have keys: "Object_keys ?acc = filter (\<lambda>k. c k \<and> k \<noteq> ''__proto__'') ks"
    by (simp add: Object_keys_def comp_def)
  show ?case
  proof (cases "c k")
    case False then show ?thesis using acc by simp
  next
    case True
    show ?thesis
    proof (cases "k = ''__proto__''")
      case True
      then have "obj_set ?acc k (g k) = ?acc" by (simp add: obj_set_def keys)
      then show ?thesis using acc \<open>c k\<close> True by simp
    next
      case False
      have "obj_define ?acc k (g k) = ?acc @ [(k, g k)]"
        by (rule obj_define_append) (use d s in \<open>auto simp: keys\<close>)
      then show ?thesis using acc \<open>c k\<close> False by (simp add: obj_set_def)
    qed
  qed
qed

lemma map_of_add_missing:
  "map_of (add_missing en ld ks) k =
     (if k \<in> set ks \<and> (k \<noteq> ''__proto__'' \<or> k \<in> set (Object_keys ld)) then Some (obj_get en k)
      else map_of ld k)"
proof (induction ks arbitrary: ld)
  case Nil then show ?case by (simp add: add_missing_def)
next
  case (Cons a ks)
  let ?ld = "obj_set ld a (obj_get en a)"
  have step: "add_missing en ld (a # ks) = add_missing en ?ld ks"
    by (simp add: add_missing_def)
  have keys: "k \<in> set (Object_keys ?ld) \<longleftrightarrow>
      k \<in> set (Object_keys ld) \<or> (k = a \<and> (a \<noteq> ''__proto__'' \<or> a \<in> set (Object_keys ld)))"
    by (auto simp: keys_obj_set)
  have val: "map_of ?ld k =
      (if k = a \<and> (a \<noteq> ''__proto__'' \<or> a \<in> set (Object_keys ld)) then Some (obj_get en a) else map_of ld k)"
    by (auto simp: map_of_obj_set)
  show ?case
    unfolding step Cons.IH [of ?ld] keys val by auto
qed

lemma map_of_obj_delete: "map_of (obj_delete ob k) = (map_of ob)(k := None)"
  by (induction ob) (auto simp: obj_delete_def)

lemma map_of_remove_extra:
  "map_of (remove_extra ld ks) k = (if k \<in> set ks then None else map_of ld k)"
proof (induction ks arbitrary: ld)
  case Nil then show ?case by (simp add: remove_extra_def)
next
  case (Cons a ks)
  have "remove_extra ld (a # ks) = remove_extra (obj_delete ld a) ks"
    by (simp add: remove_extra_def)
  then show ?case by (simp add: Cons.IH map_of_obj_delete)
qed

lemma obj_get_own: "map_of ob k = Some v \<Longrightarrow> obj_get ob k = v"
  by (simp add: obj_get_def)

lemma all_str_own:
  assumes "all_str ob" "k \<in> set (Object_keys ob)"
  shows "\<exists>s. map_of ob k = Some (Str s)"
proof -
  from assms(2) obtain v where v: "map_of ob k = Some v"
    using map_of_eq_None_keys [of ob k] by (cases "map_of ob k") auto
  then have "(k, v) \<in> set ob" by (rule map_of_SomeD)
  with assms(1) have "is_str v" by (auto simp: all_str_def list_all_iff)
  then show ?thesis using v by (cases v) auto
qed

text \<open>What the rebuild reads under a key of the base table.\<close>

lemma obj_get_reconciled:
  assumes "k \<in> set (Object_keys en)"
  shows "obj_get (remove_extra (add_missing en ld (missing_keys en ld)) (extra_keys en ld)) k =
         (if k \<in> set (Object_keys ld) then obj_get ld k
          else if k = ''__proto__'' then Proto_member k else obj_get en k)"
proof -
  have 1: "k \<notin> set (extra_keys en ld)" using assms by (simp add: extra_keys_def)
  have 2: "k \<in> set (missing_keys en ld) \<longleftrightarrow> k \<notin> set (Object_keys ld)"
    using assms by (simp add: missing_keys_def)
  have m: "map_of (remove_extra (add_missing en ld (missing_keys en ld)) (extra_keys en ld)) k =
        (if k \<notin> set (Object_keys ld) \<and> k \<noteq> ''__proto__'' then Some (obj_get en k) else map_of ld k)"
    using 1 2 by (auto simp: map_of_remove_extra map_of_add_missing)
  show ?thesis
  proof (cases "k \<in> set (Object_keys ld)")
    case True
    then show ?thesis using m by (simp add: obj_get_def)
  next
    case False
    then have "map_of ld k = None" by (simp add: map_of_eq_None_keys)
    then show ?thesis using m False
      by (auto simp: obj_get_def Object_prototype_names_def)
  qed
qed

lemma JSON_stringify_map:
  "\<forall>k \<in> set ks. is_str (g k) \<Longrightarrow> JSON_stringify (map (\<lambda>k. (k, g k)) ks) = map (\<lambda>k. (k, str_of (g k))) ks"
proof (induction ks)
  case Nil then show ?case by (simp add: JSON_stringify_def)
next
  case (Cons k ks)
  then obtain s where "g k = Str s" by (cases "g k") auto
  then show ?case using Cons by (simp add: JSON_stringify_def)
qed

lemma synced_eq:
  assumes "wf_obj en" "all_str en" "all_str ld"
  shows "synced en ld =
         map (\<lambda>k. (k, str_of (if k \<in> set (Object_keys ld) then obj_get ld k else obj_get en k)))
           (filter (\<lambda>k. k \<noteq> ''__proto__'') (Object_keys en))"
proof -
  let ?ld2 = "remove_extra (add_missing en ld (missing_keys en ld)) (extra_keys en ld)"
  let ?G = "\<lambda>k. if k \<in> set (Object_keys ld) then obj_get ld k else obj_get en k"
  have str: "is_str (?G k)" if "k \<in> set (Object_keys en)" for k
  proof (cases "k \<in> set (Object_keys ld)")
    case True
    then show ?thesis using all_str_own [OF assms(3) True] by (auto simp: obj_get_def)
  next
    case False
    then show ?thesis using all_str_own [OF assms(2) that] by (auto simp: obj_get_def)
  qed
  have "sort_by_base en ?ld2 =
        map (\<lambda>k. (k, obj_get ?ld2 k))
          (filter (\<lambda>k. obj_get ?ld2 k \<noteq> Undefined \<and> k \<noteq> ''__proto__'') (Object_keys en))"
    unfolding sort_by_base_def using assms(1) by (intro fold_obj_set) (simp_all add: wf_obj_def)
  also have "filter (\<lambda>k. obj_get ?ld2 k \<noteq> Undefined \<and> k \<noteq> ''__proto__'') (Object_keys en) =
        filter (\<lambda>k. k \<noteq> ''__proto__'') (Object_keys en)"
  proof (rule filter_cong [OF refl])
    fix k assume k: "k \<in> set (Object_keys en)"
    have "is_str (?G k)" using str k by simp
    then show "(obj_get ?ld2 k \<noteq> Undefined \<and> k \<noteq> ''__proto__'') = (k \<noteq> ''__proto__'')"
      using obj_get_reconciled [OF k, of ld] by (cases "?G k") (auto split: if_splits)
  qed
  also have "map (\<lambda>k. (k, obj_get ?ld2 k)) (filter (\<lambda>k. k \<noteq> ''__proto__'') (Object_keys en)) =
        map (\<lambda>k. (k, ?G k)) (filter (\<lambda>k. k \<noteq> ''__proto__'') (Object_keys en))"
    by (rule map_cong [OF refl]) (simp add: obj_get_reconciled)
  finally have "sort_by_base en ?ld2 = map (\<lambda>k. (k, ?G k)) (filter (\<lambda>k. k \<noteq> ''__proto__'') (Object_keys en))" .
  then show ?thesis
    unfolding synced_def using str by (simp add: JSON_stringify_map)
qed

section \<open>Proofs: the prefix classifier\<close>

lemma PREFIX_TO_NAMESPACE_values:
  "list_all (\<lambda>(k, v). \<exists>n \<in> set NAMESPACES. v = Str n) PREFIX_TO_NAMESPACE"
  by (simp add: PREFIX_TO_NAMESPACE_def NAMESPACES_def)

lemma map_of_PREFIX_TO_NAMESPACE:
  "map_of PREFIX_TO_NAMESPACE p = Some v \<Longrightarrow> \<exists>n \<in> set NAMESPACES. v = Str n"
  using PREFIX_TO_NAMESPACE_values by (auto dest!: map_of_SomeD simp: list_all_iff)

lemma NAMESPACES_plain: "n \<in> set NAMESPACES \<Longrightarrow> n \<noteq> [] \<and> n \<noteq> ''misc''"
  by (auto simp: NAMESPACES_def)

lemma getNamespace_own:
  assumes "map_of PREFIX_TO_NAMESPACE (first_segment key) = Some v"
  shows "getNamespace key = v" and "\<exists>n \<in> set NAMESPACES. v = Str n"
proof -
  from map_of_PREFIX_TO_NAMESPACE [OF assms] obtain n where n: "n \<in> set NAMESPACES" "v = Str n"
    by blast
  then have "truthy v" using NAMESPACES_plain by simp
  then show "getNamespace key = v" using assms by (simp add: getNamespace_def obj_get_def)
  show "\<exists>n \<in> set NAMESPACES. v = Str n" using n by blast
qed

lemma getNamespace_absent:
  assumes "map_of PREFIX_TO_NAMESPACE (first_segment key) = None"
  shows "getNamespace key =
    (if first_segment key \<in> set Object_prototype_names
     then Proto_member (first_segment key) else Str ''misc'')"
  using assms by (simp add: getNamespace_def obj_get_def)

text \<open>
  Away from the twelve names that \<^verbatim>\<open>Object.prototype\<close> defines, the classifier is the total
  function the specification describes: it answers with a declared namespace or with
  \<^verbatim>\<open>misc\<close>, and with \<^verbatim>\<open>misc\<close> exactly when the prefix is no key of the table.
\<close>

lemma getNamespace_total_on_plain_prefixes:
  assumes "first_segment key \<notin> set Object_prototype_names"
  shows "(\<exists>ns \<in> set (NAMESPACES @ [''misc'']). getNamespace key = Str ns) \<and>
         (getNamespace key = Str ''misc'' \<longleftrightarrow>
            first_segment key \<notin> set (Object_keys PREFIX_TO_NAMESPACE))"
proof (cases "map_of PREFIX_TO_NAMESPACE (first_segment key)")
  case None
  then have "first_segment key \<notin> set (Object_keys PREFIX_TO_NAMESPACE)"
    by (simp add: map_of_eq_None_keys)
  with None assms show ?thesis by (simp add: getNamespace_absent)
next
  case (Some v)
  then have "first_segment key \<in> set (Object_keys PREFIX_TO_NAMESPACE)"
    using map_of_eq_None_keys [of PREFIX_TO_NAMESPACE "first_segment key"] by simp
  moreover from getNamespace_own [OF Some]
  obtain n where "n \<in> set NAMESPACES" "getNamespace key = Str n" by auto
  ultimately show ?thesis using NAMESPACES_plain by auto
qed

lemma getNamespace_Str:
  "getNamespace key = Str n \<Longrightarrow> n \<in> set (NAMESPACES @ [''misc''])"
proof (cases "map_of PREFIX_TO_NAMESPACE (first_segment key)")
  case None
  assume "getNamespace key = Str n"
  with None show ?thesis by (simp add: getNamespace_absent split: if_splits)
next
  case (Some v)
  assume "getNamespace key = Str n"
  with getNamespace_own [OF Some] show ?thesis by auto
qed

text \<open>
  Claim C5 (classifier totality): for every string the classifier should return a declared
  namespace or \<^verbatim>\<open>misc\<close>, and \<^verbatim>\<open>misc\<close> exactly when the first dot-segment is no key of the
  prefix table. The code looks the prefix up with \<^verbatim>\<open>PREFIX_TO_NAMESPACE[prefix]\<close>, which also
  finds what the table inherits from \<^verbatim>\<open>Object.prototype\<close>. For the key
  \<^verbatim>\<open>constructor.title\<close> the prefix is no key of the table, yet the result is the inherited
  \<^verbatim>\<open>constructor\<close> function: neither \<^verbatim>\<open>misc\<close> nor any namespace name.
\<close>

theorem getNamespace_inherited_member:
  "first_segment ''constructor.title'' = ''constructor'' \<and>
   ''constructor'' \<notin> set (Object_keys PREFIX_TO_NAMESPACE) \<and>
   getNamespace ''constructor.title'' = Proto_member ''constructor'' \<and>
   getNamespace ''constructor.title'' \<noteq> Str ''misc'' \<and>
   getNamespace ''constructor.title'' \<notin> set (map Str (NAMESPACES @ [''misc'']))"
  by (auto simp: getNamespace_def first_segment_def obj_get_def PREFIX_TO_NAMESPACE_def
      Object_prototype_names_def Object_keys_def)

section \<open>Proofs: one pass of the synchronizer's inner loop\<close>

lemma add_missing_Nil: "add_missing en ld [] = ld" by (simp add: add_missing_def)
lemma remove_extra_Nil: "remove_extra ld [] = ld" by (simp add: remove_extra_def)

lemma sync_lang_eq:
  "sync_lang ns en lang w =
     (case files w (Ns_file lang ns) of
        None \<Rightarrow>
          (None, w\<lparr>files := (files w)(Ns_file lang ns \<mapsto> Table Stringified (synced en [])),
                    dirs := insert lang (dirs w),
                    trace := trace w @ dir_events lang w @ [Exists (Ns_file lang ns)] @
                             map Print (sync_report en [] lang) @
                             [Write (Ns_file lang ns) (Table Stringified (synced en []))]\<rparr>)
      | Some Malformed \<Rightarrow>
          (Some (SyntaxError (Ns_file lang ns)),
           w\<lparr>dirs := insert lang (dirs w),
              trace := trace w @ dir_events lang w @ [Exists (Ns_file lang ns), Read (Ns_file lang ns)]\<rparr>)
      | Some (Table ly ms) \<Rightarrow>
          (None, w\<lparr>files := (files w)(Ns_file lang ns \<mapsto> Table Stringified (synced en (JSON_parse ms))),
                    dirs := insert lang (dirs w),
                    trace := trace w @ dir_events lang w @
                             [Exists (Ns_file lang ns), Read (Ns_file lang ns)] @
                             map Print (sync_report en (JSON_parse ms) lang) @
                             [Write (Ns_file lang ns) (Table Stringified (synced en (JSON_parse ms)))]\<rparr>))"
proof -
  note defs = Let_def existsSync_dir_def existsSync_def mkdirSync_def emit_def read_json_def
    write_json_def console_log_def dir_events_def sync_report_def synced_def insert_absorb
    add_missing_Nil remove_extra_Nil
  show ?thesis
  proof (cases "files w (Ns_file lang ns)")
    case None
    show ?thesis
      unfolding sync_lang_def
      by (cases "lang \<in> dirs w"; cases "missing_keys en [] = []"; cases "extra_keys en [] = []")
         (simp_all add: None defs)
  next
    case (Some c)
    show ?thesis
    proof (cases c)
      case Malformed
      show ?thesis
        unfolding sync_lang_def
        by (cases "lang \<in> dirs w") (simp_all add: Some Malformed defs)
    next
      case (Table ly ms)
      show ?thesis
        unfolding sync_lang_def
        by (cases "lang \<in> dirs w"; cases "missing_keys en (JSON_parse ms) = []";
            cases "extra_keys en (JSON_parse ms) = []")
           (simp_all add: Some Table defs)
    qed
  qed
qed

section \<open>Proofs: what every run of the synchronizer touches\<close>

lemma run_within_refl: "run_within P W w w"
  by (simp add: run_within_def)

lemma run_within_trans:
  "run_within P W w w' \<Longrightarrow> run_within P W w' w'' \<Longrightarrow> run_within P W w w''"
  unfolding run_within_def by (elim conjE exE) (auto, metis)

lemma run_within_emit: "P e \<Longrightarrow> run_within P W w (emit e w)"
  by (simp add: run_within_def emit_def)

lemma run_within_for_each:
  assumes "\<And>x w. x \<in> set xs \<Longrightarrow> run_within P W w (snd (f x w))"
  shows "run_within P W w (snd (for_each f xs w))"
  using assms
proof (induction xs arbitrary: w)
  case Nil show ?case by (simp add: run_within_refl)
next
  case (Cons x xs)
  obtain r w' where fx: "f x w = (r, w')" by (cases "f x w")
  have 1: "run_within P W w w'" using Cons.prems [of x w] fx by simp
  show ?case
  proof (cases r)
    case None
    have "run_within P W w' (snd (for_each f xs w'))" using Cons by simp
    then show ?thesis using 1 fx None by (simp add: run_within_trans [OF 1])
  next
    case (Some e) then show ?thesis using 1 fx by simp
  qed
qed

lemma run_within_fold_each:
  assumes "\<And>x a w. x \<in> set xs \<Longrightarrow> run_within P W w (snd (f x a w))"
  shows "run_within P W w (snd (fold_each f xs a w))"
  using assms
proof (induction xs arbitrary: a w)
  case Nil show ?case by (simp add: run_within_refl)
next
  case (Cons x xs)
  obtain r w' where fx: "f x a w = (r, w')" by (cases "f x a w")
  have 1: "run_within P W w w'" using Cons.prems [of x w a] fx by simp
  show ?case
  proof (cases r)
    case (Inr a')
    have "run_within P W w' (snd (fold_each f xs a' w'))" using Cons by simp
    then show ?thesis using 1 fx Inr by (simp add: run_within_trans [OF 1])
  next
    case (Inl e) then show ?thesis using 1 fx by simp
  qed
qed

lemma en_not_target: "''en'' \<notin> set TARGET_LANGUAGES"
  by (simp add: TARGET_LANGUAGES_def)

lemma target_in_languages: "l \<in> set TARGET_LANGUAGES \<Longrightarrow> l \<in> set LANGUAGES"
  by (simp add: TARGET_LANGUAGES_def)

lemma en_in_languages: "''en'' \<in> set LANGUAGES"
  by (simp add: LANGUAGES_def)

lemma list_all_sync_report: "list_all sync_event (map Print (sync_report en ld lang))"
  by (simp add: sync_report_def)

lemma run_within_sync_lang:
  assumes "lang \<in> set TARGET_LANGUAGES" "ns \<in> set NAMESPACES"
  shows "run_within sync_event sync_writes w (snd (sync_lang ns en lang w))"
proof -
  have d: "list_all sync_event (dir_events lang w)" using assms by (simp add: dir_events_def)
  have r: "sync_reads (Ns_file lang ns)" "sync_writes (Ns_file lang ns)"
    using assms target_in_languages by simp_all
  show ?thesis
    unfolding sync_lang_eq run_within_def
    using d r list_all_sync_report
    by (auto split: option.splits content.splits)
qed

lemma run_within_sync_namespace:
  assumes "ns \<in> set NAMESPACES"
  shows "run_within sync_event sync_writes w (snd (sync_namespace ns w))"
proof -
  have r: "sync_reads (Ns_file ''en'' ns)" using assms en_in_languages by simp
  let ?w1 = "emit (Exists (Ns_file ''en'' ns)) w"
  have 1: "run_within sync_event sync_writes w ?w1" using r by (simp add: run_within_emit)
  show ?thesis
  proof (cases "files w (Ns_file ''en'' ns)")
    case None
    then have "snd (sync_namespace ns w) = emit (Print (Warn_no_base ns)) ?w1"
      by (simp add: sync_namespace_def existsSync_def console_log_def Let_def)
    then show ?thesis using run_within_trans [OF 1 run_within_emit] by simp
  next
    case (Some c)
    let ?w2 = "emit (Read (Ns_file ''en'' ns)) ?w1"
    have 2: "run_within sync_event sync_writes w ?w2"
      using run_within_trans [OF 1 run_within_emit] r by simp
    show ?thesis
    proof (cases c)
      case Malformed
      then have "snd (sync_namespace ns w) = ?w2"
        using Some by (simp add: sync_namespace_def existsSync_def read_json_def emit_def Let_def)
      then show ?thesis using 2 by simp
    next
      case (Table ly ms)
      let ?en = "JSON_parse ms"
      let ?w3 = "emit (Print (Ns_header ns (length (Object_keys ?en)))) ?w2"
      have 3: "run_within sync_event sync_writes w ?w3"
        using run_within_trans [OF 2 run_within_emit] by simp
      have "snd (sync_namespace ns w) = snd (for_each (sync_lang ns ?en) TARGET_LANGUAGES ?w3)"
        using Some Table
        by (simp add: sync_namespace_def existsSync_def read_json_def emit_def console_log_def Let_def)
      moreover have "run_within sync_event sync_writes ?w3
                      (snd (for_each (sync_lang ns ?en) TARGET_LANGUAGES ?w3))"
        by (rule run_within_for_each) (simp add: run_within_sync_lang assms)
      ultimately show ?thesis using run_within_trans [OF 3] by simp
    qed
  qed
qed

lemma run_within_count_keys:
  assumes "lang \<in> set LANGUAGES" "ns \<in> set NAMESPACES"
  shows "run_within sync_event sync_writes w (snd (count_keys lang ns a w))"
proof -
  have r: "sync_reads (Ns_file lang ns)" using assms by simp
  then show ?thesis
    unfolding count_keys_def run_within_def
    by (auto simp: existsSync_def read_json_def emit_def Let_def split: option.splits content.splits)
qed

lemma run_within_report_total:
  assumes "lang \<in> set LANGUAGES"
  shows "run_within sync_event sync_writes w (snd (report_total lang w))"
proof -
  obtain r w1 where f: "fold_each (count_keys lang) NAMESPACES 0 w = (r, w1)"
    by (cases "fold_each (count_keys lang) NAMESPACES 0 w")
  have 1: "run_within sync_event sync_writes w w1"
    using run_within_fold_each [of NAMESPACES sync_event sync_writes "count_keys lang" w 0]
      run_within_count_keys [OF assms] f by simp
  show ?thesis
  proof (cases r)
    case (Inl e) then show ?thesis using 1 f by (simp add: report_total_def)
  next
    case (Inr t)
    have "run_within sync_event sync_writes w1 (emit (Print (Total lang t)) w1)"
      by (simp add: run_within_emit)
    then show ?thesis using run_within_trans [OF 1] f Inr
      by (simp add: report_total_def console_log_def)
  qed
qed

lemma run_within_main_sync: "run_within sync_event sync_writes w (snd (main_sync w))"
proof -
  let ?w0 = "console_log Sync_start w"
  have 0: "run_within sync_event sync_writes w ?w0"
    by (simp add: console_log_def run_within_emit)
  obtain r w1 where f: "for_each sync_namespace NAMESPACES ?w0 = (r, w1)"
    by (cases "for_each sync_namespace NAMESPACES ?w0")
  have "run_within sync_event sync_writes ?w0 (snd (for_each sync_namespace NAMESPACES ?w0))"
    by (rule run_within_for_each) (simp add: run_within_sync_namespace)
  then have 1: "run_within sync_event sync_writes w w1"
    using run_within_trans [OF 0] f by simp
  show ?thesis
  proof (cases r)
    case (Some e) then show ?thesis using 1 f by (simp add: main_sync_def)
  next
    case None
    let ?w2 = "console_log Totals_header (console_log Sync_done w1)"
    have 2: "run_within sync_event sync_writes w ?w2"
      using run_within_trans [OF run_within_trans [OF 1 run_within_emit] run_within_emit]
      by (simp add: console_log_def)
    have "run_within sync_event sync_writes ?w2
            (snd (for_each report_total (''en'' # TARGET_LANGUAGES) ?w2))"
      by (rule run_within_for_each)
         (auto simp: run_within_report_total en_in_languages target_in_languages)
    then show ?thesis using run_within_trans [OF 2] f None by (simp add: main_sync_def)
  qed
qed

section \<open>Proofs: the result of a run on a tree without malformed files\<close>

lemma console_emit: "console (emit e w) = console w @ printed e"
  by (simp add: console_def emit_def)

lemma console_trace: "trace w' = trace w @ evs \<Longrightarrow> console w' = console w @ concat (map printed evs)"
  by (simp add: console_def)

lemma printed_Print: "concat (map (printed \<circ> Print) ls) = ls"
  by (induction ls) auto

lemma printed_dir_events: "concat (map printed (dir_events l w)) = []"
  by (simp add: dir_events_def)

lemma sync_lang_clean:
  assumes "files w (Ns_file l ns) \<noteq> Some Malformed"
  shows "fst (sync_lang ns en l w) = None"
    and "files (snd (sync_lang ns en l w)) =
           (files w)(Ns_file l ns \<mapsto> Table Stringified (synced en (table_at (files w) l ns)))"
    and "console (snd (sync_lang ns en l w)) = console w @ sync_report en (table_at (files w) l ns) l"
proof -
  show "fst (sync_lang ns en l w) = None"
    using assms unfolding sync_lang_eq by (auto split: option.splits content.splits)
  show "files (snd (sync_lang ns en l w)) =
           (files w)(Ns_file l ns \<mapsto> Table Stringified (synced en (table_at (files w) l ns)))"
    using assms unfolding sync_lang_eq by (auto simp: table_at_def split: option.splits content.splits)
  show "console (snd (sync_lang ns en l w)) = console w @ sync_report en (table_at (files w) l ns) l"
    using assms unfolding sync_lang_eq
    by (auto simp: table_at_def console_def printed_Print printed_dir_events
          split: option.splits content.splits)
qed

lemma inner_loop_clean:
  assumes "distinct ls" "\<forall>l \<in> set ls. files w (Ns_file l ns) \<noteq> Some Malformed"
  shows "fst (for_each (sync_lang ns en) ls w) = None \<and>
         files (snd (for_each (sync_lang ns en) ls w)) =
           (\<lambda>p. case p of
                  Ns_file l n \<Rightarrow> if n = ns \<and> l \<in> set ls
                                 then Some (Table Stringified (synced en (table_at (files w) l ns)))
                                 else files w p
                | Legacy_file l \<Rightarrow> files w p) \<and>
         console (snd (for_each (sync_lang ns en) ls w)) =
           console w @ concat (map (\<lambda>l. sync_report en (table_at (files w) l ns) l) ls)"
  using assms
proof (induction ls arbitrary: w)
  case Nil
  show ?case by (auto split: path.splits)
next
  case (Cons l ls)
  obtain r w1 where step: "sync_lang ns en l w = (r, w1)" by (cases "sync_lang ns en l w")
  from Cons.prems have cl: "files w (Ns_file l ns) \<noteq> Some Malformed" by simp
  from sync_lang_clean [OF cl, of en] step
  have r: "r = None"
    and f1: "files w1 = (files w)(Ns_file l ns \<mapsto> Table Stringified (synced en (table_at (files w) l ns)))"
    and c1: "console w1 = console w @ sync_report en (table_at (files w) l ns) l"
    by simp_all
  from Cons.prems have d: "distinct ls" "l \<notin> set ls" by simp_all
  have same: "table_at (files w1) l' ns = table_at (files w) l' ns" if "l' \<in> set ls" for l'
    using that d(2) by (auto simp: f1 table_at_def)
  have same': "table_at ((files w)(Ns_file l ns \<mapsto> c)) l' ns = table_at (files w) l' ns"
    if "l' \<in> set ls" for l' c
    using that d(2) by (auto simp: table_at_def)
  have cl1: "\<forall>l' \<in> set ls. files w1 (Ns_file l' ns) \<noteq> Some Malformed"
    using Cons.prems(2) d(2) by (auto simp: f1)
  note IH = Cons.IH [OF d(1) cl1]
  have "for_each (sync_lang ns en) (l # ls) w = for_each (sync_lang ns en) ls w1"
    using step r by simp
  moreover have "(\<lambda>p. case p of
                  Ns_file l' n \<Rightarrow> if n = ns \<and> l' \<in> set ls
                                 then Some (Table Stringified (synced en (table_at (files w1) l' ns)))
                                 else files w1 p
                | Legacy_file l' \<Rightarrow> files w1 p) =
        (\<lambda>p. case p of
                  Ns_file l' n \<Rightarrow> if n = ns \<and> l' \<in> set (l # ls)
                                 then Some (Table Stringified (synced en (table_at (files w) l' ns)))
                                 else files w p
                | Legacy_file l' \<Rightarrow> files w p)"
    by (rule ext) (auto simp: same' f1 split: path.splits)
  moreover have "concat (map (\<lambda>l'. sync_report en (table_at (files w1) l' ns) l') ls) =
                 concat (map (\<lambda>l'. sync_report en (table_at (files w) l' ns) l') ls)"
    by (rule arg_cong [where f = concat], rule map_cong [OF refl]) (simp add: same)
  ultimately show ?case using IH c1 by simp
qed

lemma no_malformedD: "no_malformed fs \<Longrightarrow> fs p \<noteq> Some Malformed"
  by (simp add: no_malformed_def)

lemma distinct_TARGET_LANGUAGES: "distinct TARGET_LANGUAGES"
  by (simp add: TARGET_LANGUAGES_def LANGUAGES_def)

lemma distinct_NAMESPACES: "distinct NAMESPACES"
  by (simp add: NAMESPACES_def)

lemma files_emit: "files (emit e w) = files w"
  by (simp add: emit_def)

lemma sync_namespace_clean:
  assumes "no_malformed (files w)"
  shows "fst (sync_namespace ns w) = None \<and>
         files (snd (sync_namespace ns w)) = synced_files [ns] (files w) \<and>
         console (snd (sync_namespace ns w)) = console w @ ns_report (files w) ns"
proof (cases "files w (Ns_file ''en'' ns)")
  case None
  then have "sync_namespace ns w =
      (None, emit (Print (Warn_no_base ns)) (emit (Exists (Ns_file ''en'' ns)) w))"
    by (simp add: sync_namespace_def existsSync_def console_log_def Let_def)
  moreover have "synced_files [ns] (files w) = files w"
    using None by (rule_tac ext) (auto simp: synced_files_def split: path.splits)
  ultimately show ?thesis using None
    by (simp add: console_emit ns_report_def) (simp add: emit_def)
next
  case (Some c)
  with no_malformedD [OF assms] obtain lb b where b: "files w (Ns_file ''en'' ns) = Some (Table lb b)"
    by (cases c) auto
  let ?en = "JSON_parse b"
  let ?w3 = "console_log (Ns_header ns (length (Object_keys ?en)))
               (emit (Read (Ns_file ''en'' ns)) (emit (Exists (Ns_file ''en'' ns)) w))"
  have eq: "sync_namespace ns w = for_each (sync_lang ns ?en) TARGET_LANGUAGES ?w3"
    using b by (simp add: sync_namespace_def existsSync_def read_json_def Let_def files_emit)
  have f3: "files ?w3 = files w" by (simp add: console_log_def emit_def)
  have c3: "console ?w3 = console w @ [Ns_header ns (length (Object_keys ?en))]"
    by (simp add: console_log_def console_emit)
  have cl: "\<forall>l \<in> set TARGET_LANGUAGES. files ?w3 (Ns_file l ns) \<noteq> Some Malformed"
    using no_malformedD [OF assms] by (simp add: f3)
  note loop = inner_loop_clean [OF distinct_TARGET_LANGUAGES cl, of ?en]
  have en: "table_at (files w) ''en'' ns = ?en" using b by (simp add: table_at_def)
  have "(\<lambda>p. case p of
                Ns_file l n \<Rightarrow> if n = ns \<and> l \<in> set TARGET_LANGUAGES
                               then Some (Table Stringified (synced ?en (table_at (files w) l ns)))
                               else files w p
              | Legacy_file l \<Rightarrow> files w p) = synced_files [ns] (files w)"
    using b by (rule_tac ext) (auto simp: synced_files_def en split: path.splits)
  then show ?thesis
    using loop b unfolding eq f3 c3 by (simp add: ns_report_def en)
qed

lemma no_malformed_synced_files: "no_malformed fs \<Longrightarrow> no_malformed (synced_files nss fs)"
  by (auto simp: no_malformed_def synced_files_def split: path.splits)

lemma synced_files_Cons:
  assumes "n \<notin> set nss"
  shows "synced_files nss (synced_files [n] fs) = synced_files (n # nss) fs"
proof (rule ext)
  fix p
  have en: "synced_files [n] fs (Ns_file ''en'' m) = fs (Ns_file ''en'' m)" for m
    by (simp add: synced_files_def en_not_target)
  have other: "synced_files [n] fs (Ns_file l m) = fs (Ns_file l m)" if "m \<noteq> n" for l m
    using that by (simp add: synced_files_def)
  have tbl: "table_at (synced_files [n] fs) l m = table_at fs l m" if "m \<noteq> n" for l m
    using that by (simp add: table_at_def other)
  have tbl_en: "table_at (synced_files [n] fs) ''en'' m = table_at fs ''en'' m" for m
    by (simp add: table_at_def en)
  show "synced_files nss (synced_files [n] fs) p = synced_files (n # nss) fs p"
  proof (cases p)
    case (Legacy_file l) then show ?thesis by (simp add: synced_files_def)
  next
    case (Ns_file l m)
    show ?thesis
    proof (cases "m \<in> set nss")
      case True
      with assms have "m \<noteq> n" by auto
      then show ?thesis using True
        unfolding Ns_file synced_files_def [of nss] synced_files_def [of "n # nss"]
        by (auto simp: en other tbl tbl_en)
    next
      case False
      then show ?thesis
        unfolding Ns_file synced_files_def [of nss] synced_files_def [of "n # nss"]
        by (simp add: synced_files_def)
    qed
  qed
qed

lemma ns_report_synced_files:
  assumes "m \<noteq> n"
  shows "ns_report (synced_files [n] fs) m = ns_report fs m"
proof -
  have en: "synced_files [n] fs (Ns_file ''en'' m) = fs (Ns_file ''en'' m)"
    by (simp add: synced_files_def en_not_target)
  have tbl: "table_at (synced_files [n] fs) l m = table_at fs l m" for l
    using assms by (simp add: table_at_def synced_files_def)
  show ?thesis by (simp add: ns_report_def en tbl)
qed

lemma sync_phase_clean:
  assumes "no_malformed (files w)" "distinct nss"
  shows "fst (for_each sync_namespace nss w) = None \<and>
         files (snd (for_each sync_namespace nss w)) = synced_files nss (files w) \<and>
         console (snd (for_each sync_namespace nss w)) =
           console w @ concat (map (ns_report (files w)) nss)"
  using assms
proof (induction nss arbitrary: w)
  case Nil
  have "synced_files [] (files w) = files w"
    by (rule ext) (simp add: synced_files_def split: path.splits)
  then show ?case by simp
next
  case (Cons n nss)
  obtain r w1 where step: "sync_namespace n w = (r, w1)" by (cases "sync_namespace n w")
  from sync_namespace_clean [OF Cons.prems(1), of n] step
  have r: "r = None" and f1: "files w1 = synced_files [n] (files w)"
    and c1: "console w1 = console w @ ns_report (files w) n" by simp_all
  from Cons.prems have d: "n \<notin> set nss" "distinct nss" by simp_all
  have cl1: "no_malformed (files w1)"
    unfolding f1 by (rule no_malformed_synced_files [OF Cons.prems(1)])
  note IH = Cons.IH [OF cl1 d(2)]
  have m: "map (ns_report (synced_files [n] (files w))) nss = map (ns_report (files w)) nss"
  proof (rule map_cong [OF refl])
    fix m assume "m \<in> set nss"
    with d(1) have "m \<noteq> n" by auto
    then show "ns_report (synced_files [n] (files w)) m = ns_report (files w) m"
      by (simp add: ns_report_synced_files)
  qed
  show ?case
    using IH step r c1 unfolding f1 m by (simp add: synced_files_Cons [OF d(1)])
qed

section \<open>Proofs: the final report\<close>

lemma count_keys_Inr:
  assumes "count_keys l n a w = (Inr t, w')"
  shows "t = a + key_count (files w) l n \<and> files w' = files w \<and> console w' = console w"
proof (cases "files w (Ns_file l n)")
  case None
  with assms show ?thesis
    by (auto simp: count_keys_def existsSync_def Let_def key_count_def table_at_def
          Object_keys_def files_emit console_emit)
next
  case (Some c)
  with assms show ?thesis
    by (cases c)
       (auto simp: count_keys_def existsSync_def read_json_def Let_def key_count_def table_at_def
          files_emit console_emit)
qed

lemma count_keys_clean:
  assumes "files w (Ns_file l n) \<noteq> Some Malformed"
  shows "\<exists>t. fst (count_keys l n a w) = Inr t"
proof (cases "files w (Ns_file l n)")
  case None
  then show ?thesis by (simp add: count_keys_def existsSync_def Let_def)
next
  case (Some c)
  with assms show ?thesis
    by (cases c) (auto simp: count_keys_def existsSync_def read_json_def Let_def files_emit)
qed

lemma fold_count_keys_Inr:
  assumes "fold_each (count_keys l) nss a w = (Inr t, w')"
  shows "t = a + sum_list (map (key_count (files w) l) nss) \<and> files w' = files w \<and>
         console w' = console w"
  using assms
proof (induction nss arbitrary: a w)
  case Nil then show ?case by simp
next
  case (Cons n nss)
  obtain r w1 where step: "count_keys l n a w = (r, w1)" by (cases "count_keys l n a w")
  show ?case
  proof (cases r)
    case (Inl e)
    with Cons.prems step show ?thesis by simp
  next
    case (Inr a1)
    from count_keys_Inr [OF step [unfolded Inr]]
    have 1: "a1 = a + key_count (files w) l n" "files w1 = files w" "console w1 = console w"
      by simp_all
    from Cons.prems step Inr have "fold_each (count_keys l) nss a1 w1 = (Inr t, w')" by simp
    from Cons.IH [OF this] show ?thesis using 1 by simp
  qed
qed

lemma fold_count_keys_clean:
  assumes "no_malformed (files w)"
  shows "\<exists>t. fst (fold_each (count_keys l) nss a w) = Inr t"
  using assms
proof (induction nss arbitrary: a w)
  case Nil then show ?case by simp
next
  case (Cons n nss)
  obtain r w1 where step: "count_keys l n a w = (r, w1)" by (cases "count_keys l n a w")
  from count_keys_clean [OF no_malformedD [OF Cons.prems], of l n a] step
  obtain a1 where r: "r = Inr a1" by auto
  from count_keys_Inr [OF step [unfolded r]] have "files w1 = files w" by simp
  with Cons.prems have "no_malformed (files w1)" by simp
  from Cons.IH [OF this] show ?case using step r by simp
qed

lemma report_total_None:
  assumes "report_total l w = (None, w')"
  shows "files w' = files w \<and> console w' = console w @ [Total l (total_count (files w) l)]"
proof -
  obtain r w1 where f: "fold_each (count_keys l) NAMESPACES 0 w = (r, w1)"
    by (cases "fold_each (count_keys l) NAMESPACES 0 w")
  show ?thesis
  proof (cases r)
    case (Inl e)
    with assms f show ?thesis by (simp add: report_total_def)
  next
    case (Inr t)
    from fold_count_keys_Inr [OF f [unfolded Inr]]
    have "t = total_count (files w) l" "files w1 = files w" "console w1 = console w"
      by (simp_all add: total_count_def)
    with assms f Inr show ?thesis
      by (auto simp: report_total_def console_log_def files_emit console_emit)
  qed
qed

lemma report_total_clean:
  assumes "no_malformed (files w)"
  shows "fst (report_total l w) = None"
proof -
  from fold_count_keys_clean [OF assms, of l NAMESPACES 0]
  obtain t where "fst (fold_each (count_keys l) NAMESPACES 0 w) = Inr t" by blast
  then show ?thesis
    by (cases "fold_each (count_keys l) NAMESPACES 0 w") (simp add: report_total_def)
qed

lemma totals_None:
  assumes "for_each report_total ls w = (None, w')"
  shows "files w' = files w \<and>
         console w' = console w @ map (\<lambda>l. Total l (total_count (files w) l)) ls"
  using assms
proof (induction ls arbitrary: w)
  case Nil then show ?case by simp
next
  case (Cons l ls)
  obtain r w1 where step: "report_total l w = (r, w1)" by (cases "report_total l w")
  show ?case
  proof (cases r)
    case (Some e)
    with Cons.prems step show ?thesis by simp
  next
    case None
    from report_total_None [OF step [unfolded None]]
    have 1: "files w1 = files w" "console w1 = console w @ [Total l (total_count (files w) l)]"
      by simp_all
    from Cons.prems step None have "for_each report_total ls w1 = (None, w')" by simp
    from Cons.IH [OF this] show ?thesis using 1 by simp
  qed
qed

lemma totals_clean:
  assumes "no_malformed (files w)"
  shows "fst (for_each report_total ls w) = None"
  using assms
proof (induction ls arbitrary: w)
  case Nil then show ?case by simp
next
  case (Cons l ls)
  obtain r w1 where step: "report_total l w = (r, w1)" by (cases "report_total l w")
  from report_total_clean [OF Cons.prems, of l] step have r: "r = None" by simp
  from report_total_None [OF step [unfolded r]] Cons.prems have "no_malformed (files w1)" by simp
  from Cons.IH [OF this] show ?case using step r by simp
qed

text \<open>A run that completes: the synchronisation phase completed, and the report follows it.\<close>

lemma main_sync_None:
  assumes "fst (main_sync w) = None"
  shows "\<exists>w1. for_each sync_namespace NAMESPACES (console_log Sync_start w) = (None, w1) \<and>
              files (snd (main_sync w)) = files w1 \<and>
              console (snd (main_sync w)) =
                console w1 @ [Sync_done, Totals_header] @
                map (\<lambda>l. Total l (total_count (files w1) l)) (''en'' # TARGET_LANGUAGES)"
proof -
  obtain r w1 where p1: "for_each sync_namespace NAMESPACES (console_log Sync_start w) = (r, w1)"
    by (cases "for_each sync_namespace NAMESPACES (console_log Sync_start w)")
  let ?w2 = "console_log Totals_header (console_log Sync_done w1)"
  obtain r2 w3 where p2: "for_each report_total (''en'' # TARGET_LANGUAGES) ?w2 = (r2, w3)"
    by (cases "for_each report_total (''en'' # TARGET_LANGUAGES) ?w2")
  from assms p1 have r: "r = None" by (cases r) (simp_all add: main_sync_def)
  with assms p1 p2 have r2: "r2 = None" by (simp add: main_sync_def)
  have m: "main_sync w = (None, w3)" using p1 p2 r r2 by (simp add: main_sync_def)
  from totals_None [OF p2 [unfolded r2]]
  have "files w3 = files w1"
    "console w3 = console w1 @ [Sync_done, Totals_header] @
       map (\<lambda>l. Total l (total_count (files w1) l)) (''en'' # TARGET_LANGUAGES)"
    by (simp_all add: console_log_def files_emit console_emit)
  then show ?thesis using p1 r m by simp
qed

lemma main_sync_clean:
  assumes "no_malformed (files w)"
  shows "fst (main_sync w) = None"
    and "files (snd (main_sync w)) = synced_files NAMESPACES (files w)"
    and "console (snd (main_sync w)) =
           console w @ [Sync_start] @ concat (map (ns_report (files w)) NAMESPACES) @
           [Sync_done, Totals_header] @
           map (\<lambda>l. Total l (total_count (synced_files NAMESPACES (files w)) l))
             (''en'' # TARGET_LANGUAGES)"
proof -
  let ?w0 = "console_log Sync_start w"
  have f0: "files ?w0 = files w" and c0: "console ?w0 = console w @ [Sync_start]"
    by (simp_all add: console_log_def files_emit console_emit)
  from sync_phase_clean [of ?w0 NAMESPACES] assms distinct_NAMESPACES
  have p1: "fst (for_each sync_namespace NAMESPACES ?w0) = None"
    "files (snd (for_each sync_namespace NAMESPACES ?w0)) = synced_files NAMESPACES (files w)"
    "console (snd (for_each sync_namespace NAMESPACES ?w0)) =
       console w @ [Sync_start] @ concat (map (ns_report (files w)) NAMESPACES)"
    by (simp_all add: f0 c0)
  obtain w1 where w1: "for_each sync_namespace NAMESPACES ?w0 = (None, w1)"
    using p1(1) by (cases "for_each sync_namespace NAMESPACES ?w0") auto
  let ?w2 = "console_log Totals_header (console_log Sync_done w1)"
  have "no_malformed (files ?w2)"
    using p1(2) w1 no_malformed_synced_files [OF assms]
    by (simp add: console_log_def files_emit)
  from totals_clean [OF this] have "fst (for_each report_total (''en'' # TARGET_LANGUAGES) ?w2) = None" .
  then show 1: "fst (main_sync w) = None" using w1 by (simp add: main_sync_def)
  from main_sync_None [OF 1] w1 p1
  show "files (snd (main_sync w)) = synced_files NAMESPACES (files w)"
    and "console (snd (main_sync w)) =
           console w @ [Sync_start] @ concat (map (ns_report (files w)) NAMESPACES) @
           [Sync_done, Totals_header] @
           map (\<lambda>l. Total l (total_count (synced_files NAMESPACES (files w)) l))
             (''en'' # TARGET_LANGUAGES)"
    by auto
qed

section \<open>The synchronizer's frame and its final report\<close>

lemma main_sync_events:
  obtains evs where "trace (snd (main_sync w)) = trace w @ evs" "list_all sync_event evs"
  using run_within_main_sync [of w] unfolding run_within_def by blast

lemma main_sync_frame: "\<not> sync_writes p \<Longrightarrow> files (snd (main_sync w)) p = files w p"
  using run_within_main_sync [of w] unfolding run_within_def by blast

text \<open>
  Claim C6 (base-locale frame): in every run of the synchronizer, whatever the tree and
  however the run ends, no file of the base locale is written; every write goes to a
  namespace file of a non-base locale; and every namespace file of the base locale has
  after the run the content it had before (so no key of it is deleted or moved).
\<close>

theorem base_locale_read_only:
  "\<exists>evs. trace (snd (main_sync w)) = trace w @ evs \<and>
          (\<forall>ns c. Write (Ns_file ''en'' ns) c \<notin> set evs) \<and>
          (\<forall>p c. Write p c \<in> set evs \<longrightarrow>
                   (\<exists>l n. p = Ns_file l n \<and> l \<in> set LANGUAGES \<and> l \<noteq> ''en'')) \<and>
          (\<forall>ns. files (snd (main_sync w)) (Ns_file ''en'' ns) = files w (Ns_file ''en'' ns))"
proof -
  obtain evs where evs: "trace (snd (main_sync w)) = trace w @ evs" "list_all sync_event evs"
    by (rule main_sync_events)
  have w: "\<exists>l n. p = Ns_file l n \<and> l \<in> set LANGUAGES \<and> l \<noteq> ''en''" if "Write p c \<in> set evs" for p c
  proof -
    from that evs(2) have "sync_writes p" by (auto simp: list_all_iff)
    then show ?thesis using en_not_target target_in_languages by (cases p) auto
  qed
  have "Write (Ns_file ''en'' ns) c \<notin> set evs" for ns c
    using w [of "Ns_file ''en'' ns" c] by auto
  moreover have "files (snd (main_sync w)) (Ns_file ''en'' ns) = files w (Ns_file ''en'' ns)" for ns
    by (rule main_sync_frame) (simp add: en_not_target)
  ultimately show ?thesis using evs(1) w by blast
qed

theorem base_locale_read_only_witness:
  "Write (Ns_file ''ko'' ''common'') (Table Stringified [(''a'', ''old''), (''b'', ''B''), (''c'', ''C'')])
     \<in> set (trace (snd (main_sync convergence_tree))) \<and>
   files (snd (main_sync convergence_tree)) (Ns_file ''en'' ''common'') =
     Some (Table Stringified [(''a'', ''A''), (''b'', ''B''), (''c'', ''C'')])"
proof -
  have 1: "Write (Ns_file ''ko'' ''common'') (Table Stringified [(''a'', ''old''), (''b'', ''B''), (''c'', ''C'')])
     \<in> set (trace (snd (main_sync convergence_tree)))"
    by code_simp
  from base_locale_read_only [of convergence_tree]
  have "files (snd (main_sync convergence_tree)) (Ns_file ''en'' ''common'') =
        files convergence_tree (Ns_file ''en'' ''common'')" by blast
  then show ?thesis using 1 by (simp add: convergence_tree_def)
qed

lemma Print_in_events: "Print l \<in> set evs \<longleftrightarrow> l \<in> set (concat (map printed evs))"
proof (induction evs)
  case Nil show ?case by simp
next
  case (Cons e evs) then show ?case by (cases e) auto
qed

text \<open>
  Claim C8 (consistency check), as the code has it: the synchronizer compares no key
  counts. A run that completes ends its output with one line per locale, the base locale
  first, giving the number of keys summed over the declared namespaces as the files hold
  them after the run (an absent file counts as zero); no line about a single namespace's
  count, and no difference of counts, is ever printed.
\<close>

theorem final_report_totals:
  assumes "fst (main_sync w) = None"
  shows "\<exists>evs pre. trace (snd (main_sync w)) = trace w @ evs \<and>
           concat (map printed evs) =
             pre @ [Sync_done, Totals_header] @
             map (\<lambda>l. Total l (total_count (files (snd (main_sync w))) l))
               (''en'' # TARGET_LANGUAGES) \<and>
           (\<forall>l n a b. Print (Count_mismatch l n a b) \<notin> set evs)"
proof -
  obtain evs where evs: "trace (snd (main_sync w)) = trace w @ evs" "list_all sync_event evs"
    by (rule main_sync_events)
  have no: "Print (Count_mismatch l n a b) \<notin> set evs" for l n a b
    using evs(2) by (auto simp: list_all_iff)
  let ?w0 = "console_log Sync_start w"
  from main_sync_None [OF assms] obtain w1
    where w1: "for_each sync_namespace NAMESPACES ?w0 = (None, w1)"
      "files (snd (main_sync w)) = files w1"
      "console (snd (main_sync w)) =
         console w1 @ [Sync_done, Totals_header] @
         map (\<lambda>l. Total l (total_count (files w1) l)) (''en'' # TARGET_LANGUAGES)"
    by blast
  have "run_within sync_event sync_writes w ?w0"
    by (simp add: console_log_def run_within_emit)
  moreover have "run_within sync_event sync_writes ?w0 (snd (for_each sync_namespace NAMESPACES ?w0))"
    by (rule run_within_for_each) (simp add: run_within_sync_namespace)
  ultimately have "run_within sync_event sync_writes w w1"
    using w1(1) run_within_trans by fastforce
  then obtain evs1 where evs1: "trace w1 = trace w @ evs1" unfolding run_within_def by blast
  have "console (snd (main_sync w)) = console w @ concat (map printed evs)"
    using evs(1) by (rule console_trace)
  moreover have "console w1 = console w @ concat (map printed evs1)"
    using evs1 by (rule console_trace)
  ultimately have "concat (map printed evs) =
      concat (map printed evs1) @ [Sync_done, Totals_header] @
      map (\<lambda>l. Total l (total_count (files (snd (main_sync w))) l)) (''en'' # TARGET_LANGUAGES)"
    using w1(2,3) by simp
  then show ?thesis using evs(1) no by blast
qed

theorem final_report_totals_witness:
  "fst (main_sync orphan_tree) = None \<and>
   (\<exists>evs pre. trace (snd (main_sync orphan_tree)) = trace orphan_tree @ evs \<and>
           concat (map printed evs) =
             pre @ [Sync_done, Totals_header] @
             map (\<lambda>l. Total l (total_count (files (snd (main_sync orphan_tree))) l))
               (''en'' # TARGET_LANGUAGES) \<and>
           (\<forall>l n a b. Print (Count_mismatch l n a b) \<notin> set evs))"
proof -
  have h: "fst (main_sync orphan_tree) = None" by code_simp
  from final_report_totals [OF h] h show ?thesis by blast
qed

text \<open>
  Claim C8 as stated fails: after the run on the tree below, the Korean locale has one key
  in namespace \<^verbatim>\<open>common\<close> and the base locale none, and the run ends normally; its whole
  output consists of the lines shown, which name no namespace in the final report and give
  no difference.
\<close>

theorem no_mismatch_report_counterexample:
  "fst (main_sync orphan_tree) = None \<and>
   key_count (files (snd (main_sync orphan_tree))) ''ko'' ''common'' = 1 \<and>
   key_count (files (snd (main_sync orphan_tree))) ''en'' ''common'' = 0 \<and>
   console (snd (main_sync orphan_tree)) =
     [Sync_start,
      Warn_no_base ''common'', Warn_no_base ''analytics'', Warn_no_base ''session'',
      Warn_no_base ''settings'', Warn_no_base ''tools'',
      Ns_header ''error'' 1,
      Keys_added ''ko'' 1, Keys_added ''ja'' 1, Keys_added ''zh-CN'' 1, Keys_added ''zh-TW'' 1,
      Warn_no_base ''message'', Warn_no_base ''renderers'', Warn_no_base ''update'',
      Warn_no_base ''feedback'', Warn_no_base ''recentEdits'',
      Sync_done, Totals_header,
      Total ''en'' 1, Total ''ko'' 2, Total ''ja'' 1, Total ''zh-CN'' 1, Total ''zh-TW'' 1]"
  by code_simp

section \<open>Proofs: files the synchronizer does not depend on\<close>

lemma with_file_simps:
  "files (with_file q c w) = (files w)(q := c)"
  "dirs (with_file q c w) = dirs w"
  "trace (with_file q c w) = trace w"
  by (simp_all add: with_file_def)

lemma files_with_file_other: "q \<noteq> p \<Longrightarrow> files (with_file q c w) p = files w p"
  by (simp add: with_file_def)

lemma with_file_emit: "emit e (with_file q c w) = with_file q c (emit e w)"
  by (simp add: emit_def with_file_def)

lemma for_each_with_file:
  assumes "\<And>x w. x \<in> set xs \<Longrightarrow> f x (with_file q c w) = apsnd (with_file q c) (f x w)"
  shows "for_each f xs (with_file q c w) = apsnd (with_file q c) (for_each f xs w)"
  using assms
proof (induction xs arbitrary: w)
  case Nil show ?case by simp
next
  case (Cons x xs)
  obtain r w' where fx: "f x w = (r, w')" by (cases "f x w")
  then have fx': "f x (with_file q c w) = (r, with_file q c w')" using Cons.prems [of x w] by simp
  show ?case
  proof (cases r)
    case None
    then show ?thesis using fx fx' Cons by simp
  next
    case (Some e) then show ?thesis using fx fx' by simp
  qed
qed

lemma fold_each_with_file:
  assumes "\<And>x a w. x \<in> set xs \<Longrightarrow> f x a (with_file q c w) = apsnd (with_file q c) (f x a w)"
  shows "fold_each f xs a (with_file q c w) = apsnd (with_file q c) (fold_each f xs a w)"
  using assms
proof (induction xs arbitrary: a w)
  case Nil show ?case by simp
next
  case (Cons x xs)
  obtain r w' where fx: "f x a w = (r, w')" by (cases "f x a w")
  then have fx': "f x a (with_file q c w) = (r, with_file q c w')" using Cons.prems [of x a w] by simp
  show ?case
  proof (cases r)
    case (Inr a')
    then show ?thesis using fx fx' Cons by simp
  next
    case (Inl e) then show ?thesis using fx fx' by simp
  qed
qed

lemma sync_lang_with_file:
  assumes "q \<noteq> Ns_file lang ns"
  shows "sync_lang ns en lang (with_file q c w) = apsnd (with_file q c) (sync_lang ns en lang w)"
proof -
  have f: "files (with_file q c w) (Ns_file lang ns) = files w (Ns_file lang ns)"
    using assms by (simp add: with_file_def)
  have d: "dir_events lang (with_file q c w) = dir_events lang w"
    by (simp add: dir_events_def with_file_def)
  show ?thesis
    unfolding sync_lang_eq f d using assms
    by (auto simp: with_file_def fun_upd_twist split: option.splits content.splits)
qed

lemma sync_namespace_with_file:
  assumes "\<And>l. q \<noteq> Ns_file l ns"
  shows "sync_namespace ns (with_file q c w) = apsnd (with_file q c) (sync_namespace ns w)"
proof -
  have f: "files (with_file q c w') (Ns_file ''en'' ns) = files w' (Ns_file ''en'' ns)" for w'
    using assms [of "''en''"] by (simp add: with_file_def)
  show ?thesis
  proof (cases "files w (Ns_file ''en'' ns)")
    case None
    then show ?thesis
      by (simp add: sync_namespace_def existsSync_def console_log_def Let_def files_emit with_file_emit f)
  next
    case (Some cnt)
    show ?thesis
    proof (cases cnt)
      case Malformed
      then show ?thesis using Some
        by (simp add: sync_namespace_def existsSync_def read_json_def Let_def files_emit with_file_emit f)
    next
      case (Table ly ms)
      have "for_each (sync_lang ns (JSON_parse ms)) TARGET_LANGUAGES (with_file q c w') =
            apsnd (with_file q c) (for_each (sync_lang ns (JSON_parse ms)) TARGET_LANGUAGES w')" for w'
        by (rule for_each_with_file) (simp add: sync_lang_with_file assms)
      then show ?thesis using Some Table
        by (simp add: sync_namespace_def existsSync_def read_json_def console_log_def Let_def
              files_emit with_file_emit f)
    qed
  qed
qed

lemma count_keys_with_file:
  assumes "q \<noteq> Ns_file l n"
  shows "count_keys l n a (with_file q c w) = apsnd (with_file q c) (count_keys l n a w)"
proof -
  have f: "files (with_file q c w') (Ns_file l n) = files w' (Ns_file l n)" for w'
    using assms by (simp add: with_file_def)
  show ?thesis
    by (cases "files w (Ns_file l n)")
       (auto simp: count_keys_def existsSync_def read_json_def Let_def files_emit with_file_emit f
          split: content.splits)
qed

lemma report_total_with_file:
  assumes "\<And>n. n \<in> set NAMESPACES \<Longrightarrow> q \<noteq> Ns_file l n"
  shows "report_total l (with_file q c w) = apsnd (with_file q c) (report_total l w)"
proof -
  have "fold_each (count_keys l) NAMESPACES 0 (with_file q c w) =
        apsnd (with_file q c) (fold_each (count_keys l) NAMESPACES 0 w)"
    by (rule fold_each_with_file) (simp add: count_keys_with_file assms)
  then show ?thesis
    by (cases "fold_each (count_keys l) NAMESPACES 0 w")
       (auto simp: report_total_def console_log_def with_file_emit split: sum.splits)
qed

lemma main_sync_with_file:
  assumes "\<And>l n. n \<in> set NAMESPACES \<Longrightarrow> q \<noteq> Ns_file l n"
  shows "main_sync (with_file q c w) = apsnd (with_file q c) (main_sync w)"
proof -
  have 1: "for_each sync_namespace NAMESPACES (with_file q c w') =
           apsnd (with_file q c) (for_each sync_namespace NAMESPACES w')" for w'
    by (rule for_each_with_file) (simp add: sync_namespace_with_file assms)
  have 2: "for_each report_total (''en'' # TARGET_LANGUAGES) (with_file q c w') =
           apsnd (with_file q c) (for_each report_total (''en'' # TARGET_LANGUAGES) w')" for w'
    by (rule for_each_with_file) (simp add: report_total_with_file assms)
  obtain r w1 where p: "for_each sync_namespace NAMESPACES (console_log Sync_start w) = (r, w1)"
    by (cases "for_each sync_namespace NAMESPACES (console_log Sync_start w)")
  then have p': "for_each sync_namespace NAMESPACES (console_log Sync_start (with_file q c w)) =
                 (r, with_file q c w1)"
    using 1 [of "console_log Sync_start w"] by (simp add: console_log_def with_file_emit)
  show ?thesis
  proof (cases r)
    case (Some e)
    then show ?thesis using p p' by (simp add: main_sync_def)
  next
    case None
    have "main_sync w =
          for_each report_total (''en'' # TARGET_LANGUAGES)
            (console_log Totals_header (console_log Sync_done w1))"
      using p None by (simp add: main_sync_def del: for_each.simps)
    moreover have "main_sync (with_file q c w) =
          for_each report_total (''en'' # TARGET_LANGUAGES)
            (with_file q c (console_log Totals_header (console_log Sync_done w1)))"
      using p' None by (simp add: main_sync_def console_log_def with_file_emit del: for_each.simps)
    ultimately show ?thesis by (simp only: 2)
  qed
qed

lemma misc_not_declared: "''misc'' \<notin> set NAMESPACES"
  by (simp add: NAMESPACES_def)

text \<open>
  Claim C10 (the catch-all namespace is outside the synchronizer's domain): for every tree,
  every locale and every way the run ends, the run never tests, reads or writes the
  locale's \<^verbatim>\<open>misc.json\<close>, which therefore keeps its content; and nothing the run does depends
  on that file: with the file replaced by any other content, or removed, the run ends the
  same way with the same trace (the same console output, totals included).
\<close>

theorem misc_outside_synchronizer:
  "(\<exists>evs. trace (snd (main_sync w)) = trace w @ evs \<and>
          Exists (Ns_file l ''misc'') \<notin> set evs \<and> Read (Ns_file l ''misc'') \<notin> set evs \<and>
          (\<forall>c. Write (Ns_file l ''misc'') c \<notin> set evs)) \<and>
   files (snd (main_sync w)) (Ns_file l ''misc'') = files w (Ns_file l ''misc'') \<and>
   fst (main_sync (with_file (Ns_file l ''misc'') c w)) = fst (main_sync w) \<and>
   trace (snd (main_sync (with_file (Ns_file l ''misc'') c w))) = trace (snd (main_sync w))"
proof -
  obtain evs where evs: "trace (snd (main_sync w)) = trace w @ evs" "list_all sync_event evs"
    by (rule main_sync_events)
  have no: "\<not> sync_reads (Ns_file l ''misc'')" "\<not> sync_writes (Ns_file l ''misc'')"
    using misc_not_declared by simp_all
  have "Exists (Ns_file l ''misc'') \<notin> set evs" "Read (Ns_file l ''misc'') \<notin> set evs"
    "\<And>c. Write (Ns_file l ''misc'') c \<notin> set evs"
    using evs(2) no by (auto simp: list_all_iff)
  moreover have "files (snd (main_sync w)) (Ns_file l ''misc'') = files w (Ns_file l ''misc'')"
    by (rule main_sync_frame) (rule no(2))
  moreover have "main_sync (with_file (Ns_file l ''misc'') c w) =
                 apsnd (with_file (Ns_file l ''misc'') c) (main_sync w)"
    by (rule main_sync_with_file) (use misc_not_declared in auto)
  ultimately show ?thesis using evs(1) by (simp add: with_file_simps)
qed

theorem misc_outside_synchronizer_witness:
  "files (snd (main_sync misc_tree)) (Ns_file ''ko'' ''misc'') = Some (Table Stringified [(''legacy.key'', ''v'')]) \<and>
   trace (snd (main_sync (with_file (Ns_file ''ko'' ''misc'') None misc_tree))) =
     trace (snd (main_sync misc_tree)) \<and>
   Print (Total ''ko'' 1) \<in> set (trace (snd (main_sync misc_tree)))"
proof -
  have 1: "Print (Total ''ko'' 1) \<in> set (trace (snd (main_sync misc_tree)))"
    by code_simp
  from misc_outside_synchronizer [of misc_tree "''ko''" None]
  have "files (snd (main_sync misc_tree)) (Ns_file ''ko'' ''misc'') =
          files misc_tree (Ns_file ''ko'' ''misc'')"
    and "trace (snd (main_sync (with_file (Ns_file ''ko'' ''misc'') None misc_tree))) =
          trace (snd (main_sync misc_tree))"
    by blast+
  then show ?thesis using 1 by (simp add: misc_tree_def)
qed

section \<open>Proofs: tables already in step with the base table\<close>

lemma JSON_parse_ordered:
  assumes "distinct (map fst ms)" "sorted_wrt js_before (map fst ms)"
  shows "JSON_parse ms = map (\<lambda>(k, s). (k, Str s)) ms"
  unfolding JSON_parse_def using assms
proof (induction ms rule: rev_induct)
  case Nil show ?case by simp
next
  case (snoc m ms)
  obtain k s where m: "m = (k, s)" by (cases m)
  let ?acc = "map (\<lambda>(k, s). (k, Str s)) ms"
  from snoc.prems have d: "distinct (map fst ms)" "k \<notin> fst ` set ms"
    and o: "sorted_wrt js_before (map fst ms)" "\<forall>k' \<in> fst ` set ms. js_before k' k"
    by (auto simp: m sorted_wrt_append)
  have keys: "Object_keys ?acc = map fst ms"
    by (simp add: Object_keys_def comp_def case_prod_unfold)
  have "obj_define ?acc k (Str s) = ?acc @ [(k, Str s)]"
    by (rule obj_define_append) (use d o in \<open>auto simp: keys\<close>)
  then show ?case using snoc.IH [OF d(1) o(1)] by (simp add: m)
qed

lemma keys_synced:
  assumes "wf_obj en" "all_str en" "all_str ld"
  shows "map fst (synced en ld) = filter (\<lambda>k. k \<noteq> ''__proto__'') (Object_keys en)"
  by (simp add: synced_eq [OF assms] comp_def)

lemma wf_filter_keys:
  assumes "wf_obj en"
  shows "distinct (filter P (Object_keys en))" "sorted_wrt js_before (filter P (Object_keys en))"
  using assms by (simp_all add: wf_obj_def sorted_wrt_filter)

lemma JSON_parse_synced:
  assumes "wf_obj en" "all_str en" "all_str ld"
  shows "JSON_parse (synced en ld) = map (\<lambda>(k, s). (k, Str s)) (synced en ld)"
  by (rule JSON_parse_ordered) (simp_all add: keys_synced [OF assms] wf_filter_keys [OF assms(1)])

text \<open>Synchronising a table that was just synchronised gives the same table again.\<close>

lemma synced_idem:
  assumes "wf_obj en" "all_str en" "all_str ld"
  shows "synced en (JSON_parse (synced en ld)) = synced en ld"
proof -
  let ?ks = "filter (\<lambda>k. k \<noteq> ''__proto__'') (Object_keys en)"
  let ?G = "\<lambda>k. str_of (if k \<in> set (Object_keys ld) then obj_get ld k else obj_get en k)"
  let ?ld' = "JSON_parse (synced en ld)"
  have out: "synced en ld = map (\<lambda>k. (k, ?G k)) ?ks" by (rule synced_eq [OF assms])
  have "?ld' = map (\<lambda>(k, s). (k, Str s)) (synced en ld)"
    by (rule JSON_parse_synced [OF assms])
  then have ld': "?ld' = map (\<lambda>k. (k, Str (?G k))) ?ks"
    by (simp add: out comp_def)
  have keys: "Object_keys ?ld' = ?ks" unfolding ld' by (simp add: Object_keys_def comp_def)
  have d: "distinct ?ks" using wf_filter_keys(1) [OF assms(1)] .
  have get: "obj_get ?ld' k = Str (?G k)" if "k \<in> set ?ks" for k
  proof -
    have "map_of (map (\<lambda>k. (k, Str (?G k))) ?ks) k = Some (Str (?G k))"
      using that by (simp add: map_of_map_restrict)
    then show ?thesis unfolding ld' by (rule obj_get_own)
  qed
  have "synced en ?ld' =
        map (\<lambda>k. (k, str_of (if k \<in> set (Object_keys ?ld') then obj_get ?ld' k else obj_get en k))) ?ks"
    by (rule synced_eq [OF assms(1,2) all_str_JSON_parse])
  also have "\<dots> = map (\<lambda>k. (k, ?G k)) ?ks"
    by (rule map_cong [OF refl]) (simp add: keys get)
  finally show ?thesis using out by simp
qed

lemma consistent_no_change:
  assumes "set (Object_keys ld) = set (Object_keys en)"
  shows "missing_keys en ld = []" "extra_keys en ld = []" "sync_report en ld l = [In_sync l]"
proof -
  show 1: "missing_keys en ld = []" using assms by (simp add: missing_keys_def)
  show 2: "extra_keys en ld = []" using assms by (simp add: extra_keys_def)
  show "sync_report en ld l = [In_sync l]" by (simp add: sync_report_def 1 2)
qed

lemma synced_consistent:
  assumes "wf_obj en" "all_str en" "all_str ld"
    and "set (Object_keys ld) = set (Object_keys en)" "''__proto__'' \<notin> set (Object_keys en)"
  shows "synced en ld = map (\<lambda>k. (k, str_of (obj_get ld k))) (Object_keys en)"
proof -
  have "filter (\<lambda>k. k \<noteq> ''__proto__'') (Object_keys en) = Object_keys en"
    using assms(5) by (auto simp: filter_id_conv)
  then show ?thesis
    unfolding synced_eq [OF assms(1-3)] using assms(4) by (simp cong: map_cong)
qed

text \<open>The member list written for a consistent pair: the base table's key order, the
  target's own values, and the old member list exactly when it already had that order.\<close>

lemma synced_consistent_file:
  assumes "set (Object_keys (JSON_parse m)) = set (Object_keys (JSON_parse b))"
    and "''__proto__'' \<notin> set (Object_keys (JSON_parse b))"
  shows "map fst (synced (JSON_parse b) (JSON_parse m)) = Object_keys (JSON_parse b)"
    and "obj_get (JSON_parse (synced (JSON_parse b) (JSON_parse m))) k = obj_get (JSON_parse m) k"
    and "synced (JSON_parse b) (JSON_parse m) = m \<longleftrightarrow> map fst m = Object_keys (JSON_parse b)"
proof -
  let ?en = "JSON_parse b" and ?ld = "JSON_parse m"
  note wf = wf_JSON_parse [of b] all_str_JSON_parse [of b] all_str_JSON_parse [of m]
  have out: "synced ?en ?ld = map (\<lambda>k. (k, str_of (obj_get ?ld k))) (Object_keys ?en)"
    by (rule synced_consistent [OF wf assms])
  show keys: "map fst (synced ?en ?ld) = Object_keys ?en" by (simp add: out comp_def)
  have "JSON_parse (synced ?en ?ld) = map (\<lambda>(k, s). (k, Str s)) (synced ?en ?ld)"
    by (rule JSON_parse_synced [OF wf])
  then have parsed: "JSON_parse (synced ?en ?ld) = map (\<lambda>k. (k, Str (str_of (obj_get ?ld k)))) (Object_keys ?en)"
    by (simp add: out comp_def)
  have own: "Str (str_of (obj_get ?ld k)) = obj_get ?ld k" if "k \<in> set (Object_keys ?ld)" for k
    using all_str_own [OF wf(3) that] by (auto simp: obj_get_def)
  show "obj_get (JSON_parse (synced ?en ?ld)) k = obj_get ?ld k"
  proof (cases "k \<in> set (Object_keys ?en)")
    case True
    then have "map_of (JSON_parse (synced ?en ?ld)) k = Some (Str (str_of (obj_get ?ld k)))"
      unfolding parsed by (simp add: map_of_map_restrict)
    then show ?thesis using own True assms(1) by (simp add: obj_get_own)
  next
    case False
    then have "map_of (JSON_parse (synced ?en ?ld)) k = None"
      unfolding parsed by (simp add: map_of_map_restrict)
    moreover have "map_of ?ld k = None" using False assms(1) by (simp add: map_of_eq_None_keys)
    ultimately show ?thesis by (simp add: obj_get_def)
  qed
  show "synced ?en ?ld = m \<longleftrightarrow> map fst m = Object_keys ?en"
  proof
    assume "synced ?en ?ld = m"
    then show "map fst m = Object_keys ?en" using keys by simp
  next
    assume km: "map fst m = Object_keys ?en"
    then have "distinct (map fst m)" "sorted_wrt js_before (map fst m)"
      using wf(1) by (simp_all add: wf_obj_def)
    then have ld: "?ld = map (\<lambda>(k, s). (k, Str s)) m" by (rule JSON_parse_ordered)
    have pt: "(fst p, str_of (obj_get ?ld (fst p))) = p" if p: "p \<in> set m" for p
    proof -
      obtain k s where ks: "p = (k, s)" by (cases p)
      have "map_of m k = Some s" using p ks \<open>distinct (map fst m)\<close> by simp
      then have "map_of ?ld k = Some (Str s)" unfolding ld by (simp add: map_of_map)
      then show ?thesis by (simp add: ks obj_get_own)
    qed
    have "map (\<lambda>k. (k, str_of (obj_get ?ld k))) (map fst m) =
          map (\<lambda>p. (fst p, str_of (obj_get ?ld (fst p)))) m"
      by (simp add: comp_def)
    also have "\<dots> = m" by (rule map_idI) (rule pt)
    finally have "map (\<lambda>k. (k, str_of (obj_get ?ld k))) (map fst m) = m" .
    then show "synced ?en ?ld = m" unfolding out km [symmetric] by simp
  qed
qed

section \<open>Idempotence of the synchronizer\<close>

lemma all_str_Nil: "all_str []"
  by (simp add: all_str_def)

lemma table_at_wf: "wf_obj (table_at fs l n)" and table_at_all_str: "all_str (table_at fs l n)"
  by (auto simp: table_at_def wf_JSON_parse all_str_JSON_parse wf_obj_Nil all_str_Nil
        split: option.splits content.splits)

lemma concat_singletons: "\<forall>x \<in> set xs. f x = [g x] \<Longrightarrow> concat (map f xs) = map g xs"
  by (induction xs) auto

lemma synced_files_idem: "synced_files nss (synced_files nss fs) = synced_files nss fs"
proof (rule ext)
  fix p
  show "synced_files nss (synced_files nss fs) p = synced_files nss fs p"
  proof (cases p)
    case (Legacy_file l) then show ?thesis by (simp add: synced_files_def)
  next
    case (Ns_file l n)
    have en: "synced_files nss fs (Ns_file ''en'' n) = fs (Ns_file ''en'' n)"
      by (simp add: synced_files_def en_not_target)
    then have ten: "table_at (synced_files nss fs) ''en'' n = table_at fs ''en'' n"
      by (simp add: table_at_def)
    show ?thesis
    proof (cases "n \<in> set nss \<and> l \<in> set TARGET_LANGUAGES \<and> fs (Ns_file ''en'' n) \<noteq> None")
      case True
      then have 1: "synced_files nss fs (Ns_file l n) =
                    Some (Table Stringified (synced (table_at fs ''en'' n) (table_at fs l n)))"
        by (simp add: synced_files_def)
      then have 2: "table_at (synced_files nss fs) l n =
                    JSON_parse (synced (table_at fs ''en'' n) (table_at fs l n))"
        by (simp add: table_at_def)
      have "synced_files nss (synced_files nss fs) (Ns_file l n) =
            Some (Table Stringified (synced (table_at fs ''en'' n)
                           (JSON_parse (synced (table_at fs ''en'' n) (table_at fs l n)))))"
        using True unfolding synced_files_def [of nss "synced_files nss fs"] by (simp add: en ten 2)
      then show ?thesis
        unfolding Ns_file 1 by (simp add: synced_idem table_at_wf table_at_all_str)
    next
      case False
      then have 1: "synced_files nss fs (Ns_file l n) = fs (Ns_file l n)"
        by (auto simp: synced_files_def)
      have "synced_files nss (synced_files nss fs) (Ns_file l n) = synced_files nss fs (Ns_file l n)"
        using False unfolding synced_files_def [of nss "synced_files nss fs"] by (auto simp: en)
      then show ?thesis by (simp add: Ns_file)
    qed
  qed
qed

lemma consistent_treeD:
  "consistent_tree fs \<Longrightarrow> n \<in> set NAMESPACES \<Longrightarrow> l \<in> set TARGET_LANGUAGES \<Longrightarrow>
   set (Object_keys (table_at fs l n)) = set (Object_keys (table_at fs ''en'' n))"
  by (simp add: consistent_tree_def list_all_iff)

lemma proto_freeD:
  "proto_free fs \<Longrightarrow> n \<in> set NAMESPACES \<Longrightarrow> ''__proto__'' \<notin> set (Object_keys (table_at fs ''en'' n))"
  by (simp add: proto_free_def list_all_iff)

lemma ns_report_consistent:
  assumes "consistent_tree fs" "n \<in> set NAMESPACES" "x \<in> set (ns_report fs n)"
  shows "x = Warn_no_base n \<or> (\<exists>k. x = Ns_header n k) \<or> (\<exists>l. x = In_sync l)"
proof (cases "fs (Ns_file ''en'' n) = None")
  case True
  with assms(3) show ?thesis by (simp add: ns_report_def)
next
  case False
  have "sync_report (table_at fs ''en'' n) (table_at fs l n) l = [In_sync l]"
    if "l \<in> set TARGET_LANGUAGES" for l
    by (rule consistent_no_change(3)) (rule consistent_treeD [OF assms(1,2) that])
  then have "concat (map (\<lambda>l. sync_report (table_at fs ''en'' n) (table_at fs l n) l) TARGET_LANGUAGES) =
             map In_sync TARGET_LANGUAGES"
    by (intro concat_singletons) simp
  with assms(3) False show ?thesis by (auto simp: ns_report_def)
qed

text \<open>
  Claim C1 (synchronizer idempotence), as the code has it. On a tree without malformed
  files in which, for each declared namespace, every non-base locale's key set equals the
  base locale's and no base key is \<^verbatim>\<open>__proto__\<close>, a run completes and inserts and deletes no
  key (no line reports an addition or a removal). Each existing target file of a namespace
  whose base file exists is written anew, in the layout of \<^verbatim>\<open>JSON.stringify\<close>, with the base
  table's key order and the target's own values; the file after the run is the file before
  the run exactly when it already had that layout and listed its keys in the base table's
  order. A missing target file of such a namespace is created, holding the empty table;
  every other file is left as it was. A second run in succession leaves every file as the
  first run wrote it.
\<close>

theorem synchronizer_idempotent:
  assumes "no_malformed (files w)" "consistent_tree (files w)" "proto_free (files w)"
  shows "fst (main_sync w) = None \<and>
         (\<exists>evs. trace (snd (main_sync w)) = trace w @ evs \<and>
                (\<forall>l k. Print (Keys_added l k) \<notin> set evs \<and> Print (Keys_removed l k) \<notin> set evs)) \<and>
         (\<forall>n \<in> set NAMESPACES. \<forall>l \<in> set TARGET_LANGUAGES. \<forall>lb b ly m.
             files w (Ns_file ''en'' n) = Some (Table lb b) \<and> files w (Ns_file l n) = Some (Table ly m) \<longrightarrow>
             (\<exists>m'. files (snd (main_sync w)) (Ns_file l n) = Some (Table Stringified m') \<and>
                   map fst m' = Object_keys (JSON_parse b) \<and>
                   (\<forall>k. obj_get (JSON_parse m') k = obj_get (JSON_parse m) k) \<and>
                   (files (snd (main_sync w)) (Ns_file l n) = files w (Ns_file l n) \<longleftrightarrow>
                      ly = Stringified \<and> map fst m = Object_keys (JSON_parse b)))) \<and>
         (\<forall>n \<in> set NAMESPACES. \<forall>l \<in> set TARGET_LANGUAGES.
             files w (Ns_file ''en'' n) \<noteq> None \<and> files w (Ns_file l n) = None \<longrightarrow>
             files (snd (main_sync w)) (Ns_file l n) = Some (Table Stringified [])) \<and>
         (\<forall>p. (\<forall>n \<in> set NAMESPACES. \<forall>l \<in> set TARGET_LANGUAGES.
                  p = Ns_file l n \<longrightarrow> files w (Ns_file ''en'' n) = None) \<longrightarrow>
              files (snd (main_sync w)) p = files w p) \<and>
         files (snd (main_sync (snd (main_sync w)))) = files (snd (main_sync w))"
proof -
  let ?fs = "files w"
  note run = main_sync_clean [OF assms(1)]
  have A: "fst (main_sync w) = None" by (rule run(1))
  have B: "\<exists>evs. trace (snd (main_sync w)) = trace w @ evs \<and>
                (\<forall>l k. Print (Keys_added l k) \<notin> set evs \<and> Print (Keys_removed l k) \<notin> set evs)"
  proof -
    obtain evs where evs: "trace (snd (main_sync w)) = trace w @ evs" by (rule main_sync_events)
    let ?out = "[Sync_start] @ concat (map (ns_report ?fs) NAMESPACES) @
                [Sync_done, Totals_header] @
                map (\<lambda>l. Total l (total_count (synced_files NAMESPACES ?fs) l)) (''en'' # TARGET_LANGUAGES)"
    have "console (snd (main_sync w)) = console w @ concat (map printed evs)"
      using evs by (rule console_trace)
    with run(3) have out: "concat (map printed evs) = ?out" by simp
    have "x \<in> set ?out \<Longrightarrow> (\<forall>l k. x \<noteq> Keys_added l k \<and> x \<noteq> Keys_removed l k)" for x
      using ns_report_consistent [OF assms(2)] by auto
    then have "\<forall>l k. Print (Keys_added l k) \<notin> set evs \<and> Print (Keys_removed l k) \<notin> set evs"
      unfolding Print_in_events out by blast
    then show ?thesis using evs by blast
  qed
  have C: "\<exists>m'. files (snd (main_sync w)) (Ns_file l n) = Some (Table Stringified m') \<and>
                 map fst m' = Object_keys (JSON_parse b) \<and>
                 (\<forall>k. obj_get (JSON_parse m') k = obj_get (JSON_parse m) k) \<and>
                 (files (snd (main_sync w)) (Ns_file l n) = files w (Ns_file l n) \<longleftrightarrow>
                    ly = Stringified \<and> map fst m = Object_keys (JSON_parse b))"
    if n: "n \<in> set NAMESPACES" and l: "l \<in> set TARGET_LANGUAGES"
      and b: "files w (Ns_file ''en'' n) = Some (Table lb b)"
      and m: "files w (Ns_file l n) = Some (Table ly m)"
    for n l lb b ly m
  proof -
    have tb: "table_at ?fs ''en'' n = JSON_parse b" and tm: "table_at ?fs l n = JSON_parse m"
      using b m by (simp_all add: table_at_def)
    have keys: "set (Object_keys (JSON_parse m)) = set (Object_keys (JSON_parse b))"
      using consistent_treeD [OF assms(2) n l] by (simp add: tb tm)
    have np: "''__proto__'' \<notin> set (Object_keys (JSON_parse b))"
      using proto_freeD [OF assms(3) n] by (simp add: tb)
    note sc = synced_consistent_file [OF keys np]
    have after: "files (snd (main_sync w)) (Ns_file l n) =
                   Some (Table Stringified (synced (JSON_parse b) (JSON_parse m)))"
      unfolding run(2) using n l b by (simp add: synced_files_def tb tm)
    have "files (snd (main_sync w)) (Ns_file l n) = files w (Ns_file l n) \<longleftrightarrow>
            ly = Stringified \<and> map fst m = Object_keys (JSON_parse b)"
      unfolding after m using sc(3) by auto
    then show ?thesis using after sc(1,2) by blast
  qed
  have E: "files (snd (main_sync w)) (Ns_file l n) = Some (Table Stringified [])"
    if n: "n \<in> set NAMESPACES" and l: "l \<in> set TARGET_LANGUAGES"
      and b: "files w (Ns_file ''en'' n) \<noteq> None" and m: "files w (Ns_file l n) = None"
    for n l
  proof -
    from b obtain c where c: "files w (Ns_file ''en'' n) = Some c" by blast
    with no_malformedD [OF assms(1), of "Ns_file ''en'' n"] obtain lb b'
      where b': "files w (Ns_file ''en'' n) = Some (Table lb b')"
      by (cases c) auto
    have tb: "table_at ?fs ''en'' n = JSON_parse b'" and tm: "table_at ?fs l n = JSON_parse []"
      using b' m by (simp_all add: table_at_def JSON_parse_def)
    have keys: "set (Object_keys (JSON_parse [])) = set (Object_keys (JSON_parse b'))"
      using consistent_treeD [OF assms(2) n l] by (simp add: tb tm)
    have np: "''__proto__'' \<notin> set (Object_keys (JSON_parse b'))"
      using proto_freeD [OF assms(3) n] by (simp add: tb)
    have "Object_keys (JSON_parse b') = []"
      using keys by (simp add: JSON_parse_def Object_keys_def)
    with synced_consistent_file(1) [OF keys np] have "synced (JSON_parse b') (JSON_parse []) = []"
      by simp
    moreover have "files (snd (main_sync w)) (Ns_file l n) =
                   Some (Table Stringified (synced (JSON_parse b') (JSON_parse [])))"
      unfolding run(2) using n l b' by (simp add: synced_files_def tb tm)
    ultimately show ?thesis by simp
  qed
  have F: "files (snd (main_sync w)) p = files w p"
    if "\<forall>n \<in> set NAMESPACES. \<forall>l \<in> set TARGET_LANGUAGES.
          p = Ns_file l n \<longrightarrow> files w (Ns_file ''en'' n) = None" for p
    unfolding run(2) using that by (cases p) (auto simp: synced_files_def)
  have D: "files (snd (main_sync (snd (main_sync w)))) = files (snd (main_sync w))"
  proof -
    have "no_malformed (files (snd (main_sync w)))"
      unfolding run(2) by (rule no_malformed_synced_files [OF assms(1)])
    from main_sync_clean(2) [OF this] show ?thesis
      unfolding run(2) by (simp add: synced_files_idem)
  qed
  show ?thesis using A B C D E F by blast
qed

lemma no_malformed_reorder_tree: "no_malformed (files reorder_tree)"
  by (simp add: no_malformed_def reorder_tree_def)

theorem synchronizer_idempotent_witness:
  "no_malformed (files reorder_tree) \<and> consistent_tree (files reorder_tree) \<and>
   proto_free (files reorder_tree) \<and>
   fst (main_sync reorder_tree) = None \<and>
   files reorder_tree (Ns_file ''ja'' ''common'') =
     Some (Table (Other_layout 4) [(''b'', ''B''), (''a'', ''A'')]) \<and>
   files (snd (main_sync reorder_tree)) (Ns_file ''ja'' ''common'') =
     Some (Table Stringified [(''b'', ''B''), (''a'', ''A'')]) \<and>
   files (snd (main_sync reorder_tree)) (Ns_file ''zh-CN'' ''common'') =
     files reorder_tree (Ns_file ''zh-CN'' ''common'') \<and>
   files (snd (main_sync (snd (main_sync reorder_tree)))) = files (snd (main_sync reorder_tree))"
proof -
  have h: "no_malformed (files reorder_tree)" "consistent_tree (files reorder_tree)"
    "proto_free (files reorder_tree)"
    by (rule no_malformed_reorder_tree) code_simp+
  have ja: "files reorder_tree (Ns_file ''ja'' ''common'') =
     Some (Table (Other_layout 4) [(''b'', ''B''), (''a'', ''A'')])"
    "files (snd (main_sync reorder_tree)) (Ns_file ''ja'' ''common'') =
     Some (Table Stringified [(''b'', ''B''), (''a'', ''A'')])"
    "files (snd (main_sync reorder_tree)) (Ns_file ''zh-CN'' ''common'') =
     files reorder_tree (Ns_file ''zh-CN'' ''common'')" by code_simp+
  from synchronizer_idempotent [OF h] h ja show ?thesis by blast
qed

text \<open>
  Claim C1 as stated fails: the tree below is consistent (in every declared namespace each
  locale has the base locale's key set) and the run changes no key set, yet the Korean file,
  which had the layout of \<^verbatim>\<open>JSON.stringify\<close> and listed its keys as a, b, is rewritten in the
  base file's order b, a.
\<close>

theorem idempotence_counterexample:
  "consistent_tree (files reorder_tree) \<and>
   fst (main_sync reorder_tree) = None \<and>
   files reorder_tree (Ns_file ''ko'' ''common'') =
     Some (Table Stringified [(''a'', ''x''), (''b'', ''y'')]) \<and>
   files (snd (main_sync reorder_tree)) (Ns_file ''ko'' ''common'') =
     Some (Table Stringified [(''b'', ''y''), (''a'', ''x'')])"
  by code_simp

section \<open>Convergence and key order\<close>

text \<open>
  What one pass writes, for any base file \<open>b\<close> and target file \<open>m\<close>: the keys of the base
  table in the base table's order, without \<^verbatim>\<open>__proto__\<close>; under each key the target's value
  if the target had the key, else the base value.
\<close>

lemma synced_keys: 
  "map fst (synced (JSON_parse b) (JSON_parse m)) =
     filter (\<lambda>k. k \<noteq> ''__proto__'') (Object_keys (JSON_parse b))"
  by (rule keys_synced [OF wf_JSON_parse all_str_JSON_parse all_str_JSON_parse])

lemma synced_values:
  assumes "k \<in> fst ` set b" "k \<noteq> ''__proto__''"
  shows "map_of (synced (JSON_parse b) (JSON_parse m)) k =
           (if k \<in> fst ` set m then map_of (rev m) k else map_of (rev b) k)"
proof -
  let ?en = "JSON_parse b" and ?ld = "JSON_parse m"
  let ?G = "\<lambda>k. str_of (if k \<in> set (Object_keys ?ld) then obj_get ?ld k else obj_get ?en k)"
  have out: "synced ?en ?ld = map (\<lambda>k. (k, ?G k)) (filter (\<lambda>k. k \<noteq> ''__proto__'') (Object_keys ?en))"
    by (rule synced_eq [OF wf_JSON_parse all_str_JSON_parse all_str_JSON_parse])
  have k: "k \<in> set (filter (\<lambda>k. k \<noteq> ''__proto__'') (Object_keys ?en))"
    using assms by (simp add: keys_JSON_parse)
  then have 1: "map_of (synced ?en ?ld) k = Some (?G k)"
    unfolding out by (simp add: map_of_map_restrict)
  have get: "\<exists>s. obj_get (JSON_parse x) k = Str s \<and> map_of (rev x) k = Some s" if "k \<in> fst ` set x" for x
  proof -
    have "k \<in> set (Object_keys (JSON_parse x))" using that by (simp add: keys_JSON_parse)
    from all_str_own [OF all_str_JSON_parse this] obtain s where s: "map_of (JSON_parse x) k = Some (Str s)"
      by blast
    then have "map_of (rev x) k = Some s"
      unfolding map_of_JSON_parse by (auto simp: map_of_map)
    then show ?thesis using s by (auto simp: obj_get_own)
  qed
  show ?thesis
  proof (cases "k \<in> fst ` set m")
    case True
    with get [OF True] show ?thesis unfolding 1 by (auto simp: keys_JSON_parse)
  next
    case False
    with get [OF assms(1)] show ?thesis unfolding 1 by (auto simp: keys_JSON_parse)
  qed
qed

text \<open>
  For a base file without the key \<^verbatim>\<open>__proto__\<close> this is the convergence and the order
  preservation of the specification: the written file has exactly the base table's keys in
  the base table's order.
\<close>

lemma convergence_without_proto:
  assumes "''__proto__'' \<notin> fst ` set b"
  shows "map fst (synced (JSON_parse b) (JSON_parse m)) = Object_keys (JSON_parse b)"
    and "set (map fst (synced (JSON_parse b) (JSON_parse m))) = fst ` set b"
proof -
  have "filter (\<lambda>k. k \<noteq> ''__proto__'') (Object_keys (JSON_parse b)) = Object_keys (JSON_parse b)"
    using assms keys_JSON_parse [of b] by (force simp: filter_id_conv)
  then show "map fst (synced (JSON_parse b) (JSON_parse m)) = Object_keys (JSON_parse b)"
    by (simp add: synced_keys)
  then show "set (map fst (synced (JSON_parse b) (JSON_parse m))) = fst ` set b"
    by (simp add: keys_JSON_parse)
qed

text \<open>
  The same for a whole run: on a tree without malformed files, every target file of a
  namespace with a base file holds the result of that pass afterwards.
\<close>

lemma main_sync_writes_synced:
  assumes "no_malformed (files w)" "n \<in> set NAMESPACES" "l \<in> set TARGET_LANGUAGES"
    and "files w (Ns_file ''en'' n) = Some (Table lb b)"
  shows "files (snd (main_sync w)) (Ns_file l n) =
           Some (Table Stringified (synced (JSON_parse b) (table_at (files w) l n)))"
    and "map fst (synced (JSON_parse b) (table_at (files w) l n)) =
           filter (\<lambda>k. k \<noteq> ''__proto__'') (Object_keys (JSON_parse b))"
proof -
  show "files (snd (main_sync w)) (Ns_file l n) =
           Some (Table Stringified (synced (JSON_parse b) (table_at (files w) l n)))"
    using assms by (simp add: main_sync_clean(2) synced_files_def table_at_def)
  have "\<exists>m. table_at (files w) l n = JSON_parse m"
  proof (cases "files w (Ns_file l n)")
    case None
    then have "table_at (files w) l n = JSON_parse []" by (simp add: table_at_def JSON_parse_def)
    then show ?thesis ..
  next
    case (Some c)
    with assms(1) obtain ly m where "c = Table ly m"
      by (cases c) (auto simp: no_malformed_def)
    with Some have "table_at (files w) l n = JSON_parse m" by (simp add: table_at_def)
    then show ?thesis ..
  qed
  then obtain m where "table_at (files w) l n = JSON_parse m" ..
  then show "map fst (synced (JSON_parse b) (table_at (files w) l n)) =
           filter (\<lambda>k. k \<noteq> ''__proto__'') (Object_keys (JSON_parse b))"
    by (simp add: synced_keys)
qed

text \<open>
  Claim C2 (synchronizer convergence): after one pass the target's key set should equal the
  base table's key set, for every base and target table. The rebuild assigns
  \<^verbatim>\<open>sorted[key] = langData[key]\<close>; for the key \<^verbatim>\<open>__proto__\<close> that assignment calls the setter
  inherited from \<^verbatim>\<open>Object.prototype\<close> and creates no property, so the key never reaches the
  written file. On the tree below the base table has the keys \<^verbatim>\<open>__proto__\<close> and a; the run
  reports one key added to the Korean table and writes a file with the single key a.
\<close>

theorem convergence_fails_on_proto_key:
  "files proto_tree (Ns_file ''en'' ''common'') = Some (Table Stringified [(''__proto__'', ''P''), (''a'', ''A'')]) \<and>
   Object_keys (table_at (files proto_tree) ''en'' ''common'') = [''__proto__'', ''a''] \<and>
   fst (main_sync proto_tree) = None \<and>
   Print (Keys_added ''ko'' 1) \<in> set (trace (snd (main_sync proto_tree))) \<and>
   files (snd (main_sync proto_tree)) (Ns_file ''ko'' ''common'') = Some (Table Stringified [(''a'', ''old'')])"
  by code_simp

text \<open>
  Claim C3 (order preservation): the key sequence of every written target file should be
  the key sequence of the base table. On the tree below the base table lists z,
  \<^verbatim>\<open>__proto__\<close>, a and the Japanese table has the same three keys; the run reports the pair
  as in sync and writes a file that lists z, a only, for the reason given for claim C2.
\<close>

theorem order_fails_on_proto_key:
  "Object_keys (table_at (files proto_order_tree) ''en'' ''settings'') = [''z'', ''__proto__'', ''a''] \<and>
   set (Object_keys (table_at (files proto_order_tree) ''ja'' ''settings'')) = {''z'', ''__proto__'', ''a''} \<and>
   fst (main_sync proto_order_tree) = None \<and>
   Print (In_sync ''ja'') \<in> set (trace (snd (main_sync proto_order_tree))) \<and>
   files (snd (main_sync proto_order_tree)) (Ns_file ''ja'' ''settings'') =
     Some (Table Stringified [(''z'', ''y''), (''a'', ''x'')])"
  by code_simp

section \<open>Proofs: what a run of the splitter touches\<close>

lemma run_within_mono:
  assumes "run_within P W w w'" "\<And>e. P e \<Longrightarrow> P' e" "\<And>p. W p \<Longrightarrow> W' p"
  shows "run_within P' W' w w'"
  using assms unfolding run_within_def by (auto simp: list_all_iff)

lemma run_within_foldl_world:
  assumes "\<And>x w. x \<in> set xs \<Longrightarrow> run_within P W w (f w x)"
  shows "run_within P W w (foldl f w xs)"
  using assms
proof (induction xs arbitrary: w)
  case Nil show ?case by (simp add: run_within_refl)
next
  case (Cons x xs)
  have "run_within P W w (f w x)" using Cons.prems by simp
  moreover have "run_within P W (f w x) (foldl f (f w x) xs)" using Cons by simp
  ultimately show ?case by (simp add: run_within_trans [of P W w "f w x"])
qed

lemma run_within_foldl_acc:
  assumes "\<And>x acc. x \<in> set xs \<Longrightarrow> run_within P W (snd acc) (snd (f acc x))"
  shows "run_within P W (snd acc) (snd (foldl f acc xs))"
  using assms
proof (induction xs arbitrary: acc)
  case Nil show ?case by (simp add: run_within_refl)
next
  case (Cons x xs)
  have "run_within P W (snd acc) (snd (f acc x))" using Cons.prems by simp
  moreover have "run_within P W (snd (f acc x)) (snd (foldl f (f acc x) xs))" using Cons by simp
  ultimately show ?case by (simp add: run_within_trans [of P W "snd acc" "snd (f acc x)"])
qed

lemma run_within_write_json: "P (Write p (Table Stringified (JSON_stringify ob))) \<Longrightarrow> W p \<Longrightarrow> run_within P W w (write_json p ob w)"
  by (simp add: run_within_def write_json_def emit_def)

lemma run_within_write_namespace:
  "run_within (split_event rs [lang]) (split_writes [lang]) (snd acc) (snd (write_namespace lang acc part))"
proof -
  obtain stats w where acc: "acc = (stats, w)" by (cases acc)
  obtain ns nsData where part: "part = (ns, nsData)" by (cases part)
  show ?thesis
    by (simp add: acc part write_namespace_def Let_def run_within_refl run_within_write_json)
qed

lemma run_within_splitLanguage:
  "run_within (split_event [lang] [lang]) (split_writes [lang]) w (snd (splitLanguage lang w))"
proof -
  let ?P = "split_event [lang] [lang]" and ?W = "split_writes [lang]"
  let ?w1 = "emit (Read (Legacy_file lang)) w"
  have 1: "run_within ?P ?W w ?w1" by (simp add: run_within_emit)
  show ?thesis
  proof (cases "fst (read_json (Legacy_file lang) w)")
    case (Inl e)
    then have r: "read_json (Legacy_file lang) w = (Inl e, ?w1)"
      by (cases "read_json (Legacy_file lang) w") (auto simp: read_json_def)
    have "snd (splitLanguage lang w) = ?w1"
      by (simp add: splitLanguage_def r)
    then show ?thesis using 1 by simp
  next
    case (Inr data)
    then have r: "read_json (Legacy_file lang) w = (Inr data, ?w1)"
      by (cases "read_json (Legacy_file lang) w") (auto simp: read_json_def)
    let ?w3 = "if lang \<in> dirs ?w1 then emit (Exists_dir lang) ?w1
               else mkdirSync lang (emit (Exists_dir lang) ?w1)"
    have "run_within ?P ?W ?w1 ?w3"
      by (auto simp: run_within_def mkdirSync_def emit_def)
    then have 3: "run_within ?P ?W w ?w3" using run_within_trans [OF 1] by blast
    show ?thesis
    proof (cases "classify_all namespaceData_init data")
      case (Inl e)
      then have "snd (splitLanguage lang w) = ?w3"
        using r by (simp add: splitLanguage_def existsSync_dir_def Let_def)
      then show ?thesis using 3 by simp
    next
      case (Inr nd)
      have "snd (splitLanguage lang w) = snd (foldl (write_namespace lang) ([], ?w3) nd)"
        using r Inr by (simp add: splitLanguage_def existsSync_dir_def Let_def split: prod.splits)
      moreover have "run_within ?P ?W (snd ([] :: (string \<times> nat) list, ?w3))
                       (snd (foldl (write_namespace lang) ([], ?w3) nd))"
        by (rule run_within_foldl_acc) (rule run_within_write_namespace)
      ultimately show ?thesis using run_within_trans [OF 3] by simp
    qed
  qed
qed

lemma run_within_split_one:
  "run_within (split_event [lang] [lang]) (split_writes [lang]) w (snd (split_one lang a w))"
proof -
  let ?P = "split_event [lang] [lang]" and ?W = "split_writes [lang]"
  let ?w0 = "console_log (Lang_header lang) w"
  have 0: "run_within ?P ?W w ?w0" by (simp add: console_log_def run_within_emit)
  obtain r w1 where s: "splitLanguage lang ?w0 = (r, w1)" by (cases "splitLanguage lang ?w0")
  have 1: "run_within ?P ?W w w1"
    using run_within_trans [OF 0 run_within_splitLanguage [of lang ?w0]] s by simp
  show ?thesis
  proof (cases r)
    case (Inl e) then show ?thesis using 1 s by (simp add: split_one_def)
  next
    case (Inr stats)
    have "run_within ?P ?W w1 (foldl (\<lambda>w (ns, n). console_log (Ns_count ns n) w) w1 stats)"
      by (rule run_within_foldl_world) (auto simp: console_log_def run_within_emit)
    then show ?thesis using run_within_trans [OF 1] s Inr by (simp add: split_one_def)
  qed
qed

lemma run_within_split_loop:
  "run_within (split_event ls ls) (split_writes ls) w (snd (fold_each split_one ls a w))"
proof (rule run_within_fold_each)
  fix x a w assume x: "x \<in> set ls"
  have e: "split_event [x] [x] e \<Longrightarrow> split_event ls ls e" for e
    using x by (cases e) (auto split: path.splits)
  have p: "split_writes [x] p \<Longrightarrow> split_writes ls p" for p
    using x by (cases p) auto
  show "run_within (split_event ls ls) (split_writes ls) w (snd (split_one x a w))"
    by (rule run_within_mono [OF run_within_split_one e p])
qed

lemma fold_each_append:
  "fold_each f (xs @ ys) a w =
     (case fold_each f xs a w of
        (Inl e, w') \<Rightarrow> (Inl e, w')
      | (Inr a', w') \<Rightarrow> fold_each f ys a' w')"
  by (induction xs arbitrary: a w) (auto split: prod.splits sum.splits)

lemma split_one_unreadable:
  assumes "files w (Legacy_file l) = None \<or> files w (Legacy_file l) = Some Malformed"
  shows "\<exists>e. split_one l a w = (Inl e, emit (Read (Legacy_file l)) (console_log (Lang_header l) w))"
  using assms
  by (auto simp: split_one_def splitLanguage_def read_json_def console_log_def files_emit)

lemma split_loop_aborts:
  assumes "files w (Legacy_file l) = None \<or> files w (Legacy_file l) = Some Malformed"
  shows "(\<exists>e. fst (fold_each split_one (before @ l # after) a w) = Inl e) \<and>
         run_within (split_event (before @ [l]) before) (split_writes before) w
           (snd (fold_each split_one (before @ l # after) a w))"
proof -
  let ?P = "split_event (before @ [l]) before" and ?W = "split_writes before"
  obtain r w1 where b: "fold_each split_one before a w = (r, w1)"
    by (cases "fold_each split_one before a w")
  have "run_within (split_event before before) ?W w w1"
    using run_within_split_loop [of before w a] b by simp
  then have 1: "run_within ?P ?W w w1"
  proof (rule run_within_mono)
    fix e show "split_event before before e \<Longrightarrow> ?P e" by (cases e) (auto split: path.splits)
  qed simp
  show ?thesis
  proof (cases r)
    case (Inl e)
    then show ?thesis using b 1 by (simp add: fold_each_append)
  next
    case (Inr a1)
    have "\<not> ?W (Legacy_file l)" by simp
    with 1 have "files w1 (Legacy_file l) = files w (Legacy_file l)"
      unfolding run_within_def by blast
    with assms have "files w1 (Legacy_file l) = None \<or> files w1 (Legacy_file l) = Some Malformed"
      by simp
    from split_one_unreadable [OF this, of a1] obtain e
      where s: "split_one l a1 w1 = (Inl e, emit (Read (Legacy_file l)) (console_log (Lang_header l) w1))"
      by blast
    have "run_within ?P ?W w1 (emit (Read (Legacy_file l)) (console_log (Lang_header l) w1))"
      by (auto simp: run_within_def emit_def console_log_def)
    then show ?thesis using b Inr s run_within_trans [OF 1] by (simp add: fold_each_append)
  qed
qed

lemma distinct_LANGUAGES: "distinct LANGUAGES"
  by (simp add: LANGUAGES_def)

section \<open>The type generator\<close>











section \<open>Partition completeness of the splitter\<close>

lemma namespaceData_init_eq:
  "namespaceData_init = map (\<lambda>ns. (ns, [])) (NAMESPACES @ [''misc''])"
  by code_simp

lemma keys_foldl_obj_set:
  "set (Object_keys (foldl (\<lambda>sorted k. obj_set sorted k (g k)) ob ks)) =
     set (Object_keys ob) \<union> {k \<in> set ks. k \<noteq> ''__proto__'' \<or> k \<in> set (Object_keys ob)}"
proof (induction ks arbitrary: ob)
  case Nil show ?case by simp
next
  case (Cons k ks)
  show ?case unfolding foldl_Cons Cons.IH by (auto simp: keys_obj_set)
qed

lemma map_of_foldl_obj_set:
  assumes "k \<in> set ks" "k \<noteq> ''__proto__''"
  shows "map_of (foldl (\<lambda>sorted k. obj_set sorted k (g k)) ob ks) k = Some (g k)"
  using assms(1)
proof (induction ks arbitrary: ob rule: rev_induct)
  case Nil then show ?case by simp
next
  case (snoc x xs)
  show ?case
  proof (cases "x = k")
    case True
    then show ?thesis using assms(2) by (simp add: map_of_obj_set)
  next
    case False
    with snoc have "map_of (foldl (\<lambda>sorted k. obj_set sorted k (g k)) ob xs) k = Some (g k)" by simp
    then show ?thesis using False by (auto simp: map_of_obj_set)
  qed
qed

lemma set_JSON_stringify: "(k, s) \<in> set (JSON_stringify ob) \<longleftrightarrow> (k, Str s) \<in> set ob"
proof (induction ob)
  case Nil show ?case by (simp add: JSON_stringify_def)
next
  case (Cons a ob)
  obtain k' v where a: "a = (k', v)" by (cases a)
  have "JSON_stringify (a # ob) = (case v of Str s \<Rightarrow> [(k', s)] | _ \<Rightarrow> []) @ JSON_stringify ob"
    by (simp add: JSON_stringify_def a)
  then show ?case using Cons.IH by (cases v) (auto simp: a)
qed

lemma keys_JSON_stringify:
  "fst ` set (JSON_stringify ob) = {k. \<exists>s. (k, Str s) \<in> set ob}"
proof (intro set_eqI iffI)
  fix k assume "k \<in> fst ` set (JSON_stringify ob)"
  then obtain s where "(k, s) \<in> set (JSON_stringify ob)" by auto
  then show "k \<in> {k. \<exists>s. (k, Str s) \<in> set ob}" by (auto simp: set_JSON_stringify)
next
  fix k assume "k \<in> {k. \<exists>s. (k, Str s) \<in> set ob}"
  then obtain s where "(k, s) \<in> set (JSON_stringify ob)" by (auto simp: set_JSON_stringify)
  then show "k \<in> fst ` set (JSON_stringify ob)" by force
qed

text \<open>The file written for a partition holds exactly the keys of the partition.\<close>

lemma rebuilt_partition_keys:
  assumes "all_str tbl" "''__proto__'' \<notin> set (Object_keys tbl)"
  shows "fst ` set (JSON_stringify (foldl (\<lambda>sorted k. obj_set sorted k (obj_get tbl k)) []
                                       (sort (Object_keys tbl)))) = set (Object_keys tbl)"
proof -
  let ?sorted = "foldl (\<lambda>sorted k. obj_set sorted k (obj_get tbl k)) [] (sort (Object_keys tbl))"
  have "set (Object_keys ?sorted) =
        set (Object_keys ([] :: obj)) \<union>
        {k \<in> set (sort (Object_keys tbl)). k \<noteq> ''__proto__'' \<or> k \<in> set (Object_keys ([] :: obj))}"
    by (rule keys_foldl_obj_set)
  also have "\<dots> = {k \<in> set (Object_keys tbl). k \<noteq> ''__proto__''}"
    by (simp add: Object_keys_def)
  also have "\<dots> = set (Object_keys tbl)" using assms(2) by auto
  finally have keys: "set (Object_keys ?sorted) = set (Object_keys tbl)" .
  have val: "\<exists>s. (k, Str s) \<in> set ?sorted" if k: "k \<in> set (Object_keys tbl)" for k
  proof -
    from all_str_own [OF assms(1) k] obtain s where s: "obj_get tbl k = Str s"
      by (auto simp: obj_get_def)
    have "k \<noteq> ''__proto__''" using k assms(2) by auto
    then have "map_of ?sorted k = Some (obj_get tbl k)"
      using k by (intro map_of_foldl_obj_set) simp_all
    then have "(k, Str s) \<in> set ?sorted" using s by (auto dest: map_of_SomeD)
    then show ?thesis by blast
  qed
  have "{k. \<exists>s. (k, Str s) \<in> set ?sorted} = set (Object_keys tbl)"
  proof (intro set_eqI iffI)
    fix k assume "k \<in> {k. \<exists>s. (k, Str s) \<in> set ?sorted}"
    then have "k \<in> set (Object_keys ?sorted)" by (force simp: Object_keys_def)
    then show "k \<in> set (Object_keys tbl)" using keys by simp
  next
    fix k assume "k \<in> set (Object_keys tbl)"
    then show "k \<in> {k. \<exists>s. (k, Str s) \<in> set ?sorted}" using val by simp
  qed
  then show ?thesis by (simp add: keys_JSON_stringify)
qed

lemma keys_obj_set_own:
  "k \<in> set (Object_keys ob) \<Longrightarrow> Object_keys (obj_set ob k v) = Object_keys ob"
  by (simp add: obj_set_def obj_define_def keys_map_update)

lemma map_of_obj_set_own:
  "k \<in> set (Object_keys ob) \<Longrightarrow> map_of (obj_set ob k v) = (map_of ob)(k \<mapsto> v)"
  by (simp add: map_of_obj_set)

lemma all_str_obj_set: "all_str ob \<Longrightarrow> all_str (obj_set ob k (Str s))"
  by (simp add: obj_set_def all_str_define)

lemma plain_key_not_proto:
  "first_segment k \<notin> set Object_prototype_names \<Longrightarrow> k \<noteq> ''__proto__''"
  by (auto simp: first_segment_def Object_prototype_names_def)

text \<open>The classification loop on entries without inherited prefixes: it does not throw, keeps
  the twelve partitions, and adds every key to the partition the classifier names.\<close>

lemma classify_all_plain:
  assumes "Object_keys nd = NAMESPACES @ [''misc'']"
    and "\<forall>k \<in> fst ` set entries. first_segment k \<notin> set Object_prototype_names"
    and "all_str entries"
    and "\<forall>tbl \<in> snd ` set nd. all_str tbl \<and> ''__proto__'' \<notin> set (Object_keys tbl)"
  shows "\<exists>nd'. classify_all nd entries = Inr nd' \<and> Object_keys nd' = NAMESPACES @ [''misc''] \<and>
           (\<forall>tbl \<in> snd ` set nd'. all_str tbl \<and> ''__proto__'' \<notin> set (Object_keys tbl)) \<and>
           (\<forall>ns tbl. map_of nd ns = Some tbl \<longrightarrow>
              (\<exists>tbl'. map_of nd' ns = Some tbl' \<and>
                 set (Object_keys tbl') =
                   set (Object_keys tbl) \<union> {k \<in> fst ` set entries. getNamespace k = Str ns}))"
  using assms
proof (induction entries arbitrary: nd)
  case Nil
  then show ?case by simp
next
  case (Cons entry entries)
  obtain k v where entry: "entry = (k, v)" by (cases entry)
  from Cons.prems(3) obtain s where v: "v = Str s"
    by (cases v) (auto simp: all_str_def entry)
  from Cons.prems(2) have plain: "first_segment k \<notin> set Object_prototype_names"
    by (simp add: entry)
  from getNamespace_total_on_plain_prefixes [OF plain]
  obtain ns where ns: "ns \<in> set (NAMESPACES @ [''misc''])" "getNamespace k = Str ns" by blast
  then have own: "ns \<in> set (Object_keys nd)" using Cons.prems(1) by simp
  then obtain tbl where tbl: "map_of nd ns = Some tbl"
    using map_of_eq_None_keys [of nd ns] by (cases "map_of nd ns") auto
  let ?tbl = "obj_set tbl (getKeyWithinNamespace k) v"
  let ?nd = "obj_set nd ns ?tbl"
  have step: "classify_entry nd entry = Inr ?nd"
    by (simp add: classify_entry_def entry ns tbl)
  have tin: "tbl \<in> snd ` set nd" using map_of_SomeD [OF tbl] by force
  have kt: "set (Object_keys ?tbl) = insert k (set (Object_keys tbl))"
    using plain_key_not_proto [OF plain] by (simp add: keys_obj_set getKeyWithinNamespace_def)
  have st: "all_str ?tbl \<and> ''__proto__'' \<notin> set (Object_keys ?tbl)"
    using Cons.prems(4) tin plain_key_not_proto [OF plain] kt
    by (auto simp: v all_str_obj_set)
  have keys1: "Object_keys ?nd = NAMESPACES @ [''misc'']"
    using Cons.prems(1) own by (simp add: keys_obj_set_own)
  have m1: "map_of ?nd = (map_of nd)(ns \<mapsto> ?tbl)" using own by (rule map_of_obj_set_own)
  have inv1: "\<forall>t \<in> snd ` set ?nd. all_str t \<and> ''__proto__'' \<notin> set (Object_keys t)"
  proof
    fix t assume "t \<in> snd ` set ?nd"
    then obtain n where n: "(n, t) \<in> set ?nd" by auto
    have "distinct (map fst ?nd)" using keys1 distinct_NAMESPACES misc_not_declared
      by (simp add: Object_keys_def)
    then have "map_of ?nd n = Some t" using n by simp
    then have "t = ?tbl \<or> map_of nd n = Some t" unfolding m1 by (auto split: if_splits)
    then show "all_str t \<and> ''__proto__'' \<notin> set (Object_keys t)"
    proof
      assume "t = ?tbl" then show ?thesis using st by simp
    next
      assume "map_of nd n = Some t"
      then have "t \<in> snd ` set nd" using map_of_SomeD by force
      then show ?thesis using Cons.prems(4) by blast
    qed
  qed
  have rest: "\<forall>k \<in> fst ` set entries. first_segment k \<notin> set Object_prototype_names"
    "all_str entries"
    using Cons.prems(2,3) by (auto simp: all_str_def)
  from Cons.IH [OF keys1 rest inv1] obtain nd'
    where r: "classify_all ?nd entries = Inr nd'" "Object_keys nd' = NAMESPACES @ [''misc'']"
      "\<forall>tbl \<in> snd ` set nd'. all_str tbl \<and> ''__proto__'' \<notin> set (Object_keys tbl)"
      and parts: "\<And>n t. map_of ?nd n = Some t \<Longrightarrow>
              \<exists>t'. map_of nd' n = Some t' \<and>
                 set (Object_keys t') =
                   set (Object_keys t) \<union> {k \<in> fst ` set entries. getNamespace k = Str n}"
    by blast
  have "\<exists>t'. map_of nd' n = Some t' \<and>
          set (Object_keys t') =
            set (Object_keys t) \<union> {k \<in> fst ` set (entry # entries). getNamespace k = Str n}"
    if t: "map_of nd n = Some t" for n t
  proof (cases "n = ns")
    case True
    with t tbl have tt: "t = tbl" by simp
    from parts [of ns ?tbl] m1 obtain t' where t': "map_of nd' ns = Some t'"
      "set (Object_keys t') = set (Object_keys ?tbl) \<union> {k \<in> fst ` set entries. getNamespace k = Str ns}"
      by auto
    then show ?thesis unfolding True tt kt using ns(2) by (auto simp: entry)
  next
    case False
    with parts [of n t] m1 t obtain t' where t': "map_of nd' n = Some t'"
      "set (Object_keys t') = set (Object_keys t) \<union> {k \<in> fst ` set entries. getNamespace k = Str n}"
      by auto
    then show ?thesis using False ns(2) by (auto simp: entry)
  qed
  then show ?case using step r by auto
qed

text \<open>The writing loop: every non-empty partition is written to its own file, nothing else
  changes.\<close>

lemma write_loop_files:
  assumes "distinct (map fst nd)"
  shows "files (snd (foldl (write_namespace lang) (stats, w) nd)) (Ns_file l ns) =
           (case map_of nd ns of
              Some tbl \<Rightarrow>
                if l = lang \<and> Object_keys tbl \<noteq> []
                then Some (Table Stringified (JSON_stringify
                        (foldl (\<lambda>sorted k. obj_set sorted k (obj_get tbl k)) [] (sort (Object_keys tbl)))))
                else files w (Ns_file l ns)
            | None \<Rightarrow> files w (Ns_file l ns))"
  using assms
proof (induction nd arbitrary: stats w)
  case Nil show ?case by simp
next
  case (Cons part nd)
  obtain n tbl where part: "part = (n, tbl)" by (cases part)
  obtain stats1 w1 where s: "write_namespace lang (stats, w) part = (stats1, w1)"
    by (cases "write_namespace lang (stats, w) part")
  have f1: "files w1 (Ns_file l ns) =
            (if ns = n \<and> l = lang \<and> Object_keys tbl \<noteq> []
             then Some (Table Stringified (JSON_stringify
                     (foldl (\<lambda>sorted k. obj_set sorted k (obj_get tbl k)) [] (sort (Object_keys tbl)))))
             else files w (Ns_file l ns))"
    using s by (auto simp: write_namespace_def part Let_def write_json_def emit_def split: if_splits)
  from Cons.prems have d: "distinct (map fst nd)" "n \<notin> fst ` set nd" by (auto simp: part)
  have later: "map_of nd n = None" using d(2) by (simp add: map_of_eq_None_iff)
  show ?case
    using Cons.IH [OF d(1), of stats1 w1] s f1 later
    by (auto simp: part split: option.splits)
qed

text \<open>
  Partition completeness where the classifier is total: if no key of the flat table has a
  prefix that is a property name of \<^verbatim>\<open>Object.prototype\<close>, \<open>splitLanguage\<close> succeeds; each of
  the twelve namespaces with at least one key gets a file holding exactly its keys, the
  others get none; every key of the table is in the partition of exactly one namespace.
\<close>

lemma split_partition_on_plain_prefixes:
  assumes "files w (Legacy_file lang) = Some (Table ly ms)"
    and "\<forall>k \<in> fst ` set ms. first_segment k \<notin> set Object_prototype_names"
  shows "\<exists>stats. fst (splitLanguage lang w) = Inr stats"
    and "ns \<in> set (NAMESPACES @ [''misc'']) \<Longrightarrow> partition_keys ms ns \<noteq> {} \<Longrightarrow>
         \<exists>m'. files (snd (splitLanguage lang w)) (Ns_file lang ns) = Some (Table Stringified m') \<and>
              fst ` set m' = partition_keys ms ns"
    and "ns \<notin> set (NAMESPACES @ [''misc'']) \<or> partition_keys ms ns = {} \<Longrightarrow>
         files (snd (splitLanguage lang w)) (Ns_file lang ns) = files w (Ns_file lang ns)"
    and "(\<Union>n \<in> set (NAMESPACES @ [''misc'']). partition_keys ms n) = fst ` set ms"
    and "n \<noteq> n' \<Longrightarrow> partition_keys ms n \<inter> partition_keys ms n' = {}"
proof -
  let ?NS = "NAMESPACES @ [''misc'']"
  let ?data = "JSON_parse ms"
  let ?w1 = "emit (Read (Legacy_file lang)) w"
  let ?w3 = "if lang \<in> dirs ?w1 then emit (Exists_dir lang) ?w1
             else mkdirSync lang (emit (Exists_dir lang) ?w1)"
  have f3: "files ?w3 = files w" by (simp add: mkdirSync_def emit_def)
  have keys0: "Object_keys namespaceData_init = ?NS"
    unfolding namespaceData_init_eq by (simp add: Object_keys_def comp_def)
  have inv0: "\<forall>tbl \<in> snd ` set namespaceData_init. all_str tbl \<and> ''__proto__'' \<notin> set (Object_keys tbl)"
    unfolding namespaceData_init_eq by (auto simp: all_str_Nil Object_keys_def)
  have dk: "fst ` set ?data = fst ` set ms"
    using keys_JSON_parse [of ms] by (simp add: Object_keys_def)
  have plain: "\<forall>k \<in> fst ` set ?data. first_segment k \<notin> set Object_prototype_names"
    unfolding dk by (rule assms(2))
  from classify_all_plain [OF keys0 plain all_str_JSON_parse inv0] obtain nd
    where nd: "classify_all namespaceData_init ?data = Inr nd" "Object_keys nd = ?NS"
      and inv: "\<forall>tbl \<in> snd ` set nd. all_str tbl \<and> ''__proto__'' \<notin> set (Object_keys tbl)"
      and parts: "\<And>n tbl. map_of namespaceData_init n = Some tbl \<Longrightarrow>
              \<exists>tbl'. map_of nd n = Some tbl' \<and>
                 set (Object_keys tbl') =
                   set (Object_keys tbl) \<union> {k \<in> fst ` set ?data. getNamespace k = Str n}"
    by blast
  have run: "splitLanguage lang w =
             (Inr (fst (foldl (write_namespace lang) ([], ?w3) nd)),
              snd (foldl (write_namespace lang) ([], ?w3) nd))"
    using assms(1) nd(1)
    by (simp add: splitLanguage_def read_json_def existsSync_dir_def Let_def split: prod.splits)
  show "\<exists>stats. fst (splitLanguage lang w) = Inr stats" by (simp add: run)
  have d: "distinct (map fst nd)"
    using nd(2) distinct_NAMESPACES misc_not_declared by (simp add: Object_keys_def)
  have tbl_of: "\<exists>tbl. map_of nd n = Some tbl \<and> all_str tbl \<and> ''__proto__'' \<notin> set (Object_keys tbl) \<and>
                  set (Object_keys tbl) = partition_keys ms n"
    if n: "n \<in> set ?NS" for n
  proof -
    have "map_of (map (\<lambda>ns. (ns, [])) xs) n = Some ([] :: obj)" if "n \<in> set xs" for xs
      using that by (induction xs) auto
    then have "map_of namespaceData_init n = Some []"
      unfolding namespaceData_init_eq using n by blast
    from parts [OF this] obtain tbl where t: "map_of nd n = Some tbl"
      "set (Object_keys tbl) = {k \<in> fst ` set ?data. getNamespace k = Str n}"
      by (auto simp: Object_keys_def)
    have "tbl \<in> snd ` set nd" using map_of_SomeD [OF t(1)] by force
    then show ?thesis using t inv by (auto simp: dk partition_keys_def)
  qed
  { assume n: "ns \<in> set ?NS" and ne: "partition_keys ms ns \<noteq> {}"
    from tbl_of [OF n] obtain tbl where t: "map_of nd ns = Some tbl" "all_str tbl"
      "''__proto__'' \<notin> set (Object_keys tbl)" "set (Object_keys tbl) = partition_keys ms ns"
      by blast
    have "Object_keys tbl \<noteq> []" using ne t(4) by auto
    then have "files (snd (splitLanguage lang w)) (Ns_file lang ns) =
               Some (Table Stringified (JSON_stringify
                  (foldl (\<lambda>sorted k. obj_set sorted k (obj_get tbl k)) [] (sort (Object_keys tbl)))))"
      unfolding run by (simp add: write_loop_files [OF d] t(1))
    then show "\<exists>m'. files (snd (splitLanguage lang w)) (Ns_file lang ns) = Some (Table Stringified m') \<and>
              fst ` set m' = partition_keys ms ns"
      using rebuilt_partition_keys [OF t(2,3)] t(4) by simp }
  { assume "ns \<notin> set ?NS \<or> partition_keys ms ns = {}"
    then show "files (snd (splitLanguage lang w)) (Ns_file lang ns) = files w (Ns_file lang ns)"
    proof
      assume "ns \<notin> set ?NS"
      then have "map_of nd ns = None" using nd(2) map_of_eq_None_keys [of nd ns] by simp
      then show ?thesis unfolding run by (simp add: write_loop_files [OF d] f3)
    next
      assume e: "partition_keys ms ns = {}"
      show ?thesis
      proof (cases "ns \<in> set ?NS")
        case True
        from tbl_of [OF True] e obtain tbl where "map_of nd ns = Some tbl" "Object_keys tbl = []"
          by auto
        then show ?thesis unfolding run by (simp add: write_loop_files [OF d] f3)
      next
        case False
        then have "map_of nd ns = None" using nd(2) map_of_eq_None_keys [of nd ns] by simp
        then show ?thesis unfolding run by (simp add: write_loop_files [OF d] f3)
      qed
    qed }
  show "(\<Union>n \<in> set ?NS. partition_keys ms n) = fst ` set ms"
  proof (intro set_eqI iffI)
    fix k assume "k \<in> (\<Union>n \<in> set ?NS. partition_keys ms n)"
    then show "k \<in> fst ` set ms" by (auto simp: partition_keys_def)
  next
    fix k assume k: "k \<in> fst ` set ms"
    with assms(2) have "first_segment k \<notin> set Object_prototype_names" by blast
    from getNamespace_total_on_plain_prefixes [OF this]
    obtain n where "n \<in> set ?NS" "getNamespace k = Str n" by blast
    then show "k \<in> (\<Union>n \<in> set ?NS. partition_keys ms n)"
      using k by (auto simp: partition_keys_def)
  qed
  show "n \<noteq> n' \<Longrightarrow> partition_keys ms n \<inter> partition_keys ms n' = {}"
    by (auto simp: partition_keys_def)
qed

text \<open>
  Claim C4 (partition completeness): for every flat table the partitions the splitter
  produces should together hold exactly the table's keys; by the lemma above they do when
  no key has an inherited property name as its prefix. The classification loop indexes
  \<^verbatim>\<open>namespaceData\<close> with the result of \<open>getNamespace\<close>; for a key whose prefix is a property
  name of \<^verbatim>\<open>Object.prototype\<close> that result is no namespace name (claim C5), the lookup yields
  \<^verbatim>\<open>undefined\<close> and the assignment throws. On the tree below the flat table has the keys
  \<^verbatim>\<open>common.ok\<close> and \<^verbatim>\<open>constructor.title\<close>; \<open>splitLanguage\<close> ends with a TypeError after
  creating the directory, and writes no partition at all.
\<close>

theorem split_fails_on_inherited_prefix:
  "files inherited_prefix_tree (Legacy_file ''en'') =
     Some (Table Stringified [(''common.ok'', ''OK''), (''constructor.title'', ''T'')]) \<and>
   fst (splitLanguage ''en'' inherited_prefix_tree) = Inl TypeError \<and>
   trace (snd (splitLanguage ''en'' inherited_prefix_tree)) =
     [Read (Legacy_file ''en''), Exists_dir ''en'', Mkdir ''en''] \<and>
   files (snd (splitLanguage ''en'' inherited_prefix_tree)) (Ns_file ''en'' ''common'') = None \<and>
   files (snd (splitLanguage ''en'' inherited_prefix_tree)) (Ns_file ''en'' ''misc'') = None"
  by code_simp

section \<open>The splitter at a locale whose legacy file cannot be read\<close>

lemma files_foldl_console:
  "files (foldl (\<lambda>w (ns, n). console_log (f ns n) w) w xs) = files w"
  by (induction xs arbitrary: w) (auto simp: console_log_def files_emit)

lemma trace_foldl_console:
  "\<exists>evs. trace (foldl (\<lambda>w (ns, n). console_log (f ns n) w) w xs) = trace w @ evs"
proof -
  have "run_within (\<lambda>e. True) (\<lambda>p. False) w (foldl (\<lambda>w (ns, n). console_log (f ns n) w) w xs)"
    by (rule run_within_foldl_world) (auto simp: console_log_def run_within_emit)
  then show ?thesis unfolding run_within_def by blast
qed

lemma splitLanguage_reads:
  "\<exists>evs. trace (snd (splitLanguage l w)) = trace w @ Read (Legacy_file l) # evs"
proof -
  let ?w1 = "emit (Read (Legacy_file l)) w"
  have "run_within (split_event [l] [l]) (split_writes [l]) ?w1 (snd (splitLanguage l w))"
  proof (cases "fst (read_json (Legacy_file l) w)")
    case (Inl e)
    then have r: "read_json (Legacy_file l) w = (Inl e, ?w1)"
      by (cases "read_json (Legacy_file l) w") (auto simp: read_json_def)
    have "snd (splitLanguage l w) = ?w1"
      by (simp add: splitLanguage_def r)
    then show ?thesis by (simp add: run_within_refl)
  next
    case (Inr data)
    let ?P = "split_event [l] [l]" and ?W = "split_writes [l]"
    from Inr have r: "read_json (Legacy_file l) w = (Inr data, ?w1)"
      by (cases "read_json (Legacy_file l) w") (auto simp: read_json_def)
    let ?w3 = "if l \<in> dirs ?w1 then emit (Exists_dir l) ?w1
               else mkdirSync l (emit (Exists_dir l) ?w1)"
    have 3: "run_within ?P ?W ?w1 ?w3"
      by (auto simp: run_within_def mkdirSync_def emit_def)
    show ?thesis
    proof (cases "classify_all namespaceData_init data")
      case (Inl e)
      then have "snd (splitLanguage l w) = ?w3"
        using r by (simp add: splitLanguage_def existsSync_dir_def Let_def)
      then show ?thesis using 3 by simp
    next
      case (Inr nd)
      have "snd (splitLanguage l w) = snd (foldl (write_namespace l) ([], ?w3) nd)"
        using r Inr by (simp add: splitLanguage_def existsSync_dir_def Let_def split: prod.splits)
      moreover have "run_within ?P ?W (snd ([] :: (string \<times> nat) list, ?w3))
                       (snd (foldl (write_namespace l) ([], ?w3) nd))"
        by (rule run_within_foldl_acc) (rule run_within_write_namespace)
      ultimately show ?thesis using run_within_trans [OF 3] by simp
    qed
  qed
  then obtain evs where "trace (snd (splitLanguage l w)) = trace ?w1 @ evs"
    unfolding run_within_def by blast
  then show ?thesis by (simp add: emit_def)
qed

lemma split_one_unreadable_error:
  assumes "files w (Legacy_file l) = None \<or> files w (Legacy_file l) = Some Malformed"
  shows "split_one l a w =
           (Inl (if files w (Legacy_file l) = None then ENOENT (Legacy_file l)
                 else SyntaxError (Legacy_file l)),
            emit (Read (Legacy_file l)) (console_log (Lang_header l) w))"
  using assms
  by (auto simp: split_one_def splitLanguage_def read_json_def console_log_def files_emit)

lemma split_one_plain:
  assumes "files w (Legacy_file l) = Some (Table ly ms)"
    and "\<forall>k \<in> fst ` set ms. first_segment k \<notin> set Object_prototype_names"
  shows "\<exists>a'. fst (split_one l a w) = Inr a'"
    and "ns \<in> set (NAMESPACES @ [''misc'']) \<Longrightarrow> partition_keys ms ns \<noteq> {} \<Longrightarrow>
         \<exists>m'. files (snd (split_one l a w)) (Ns_file l ns) = Some (Table Stringified m') \<and>
              fst ` set m' = partition_keys ms ns"
    and "ns \<notin> set (NAMESPACES @ [''misc'']) \<or> partition_keys ms ns = {} \<Longrightarrow>
         files (snd (split_one l a w)) (Ns_file l ns) = files w (Ns_file l ns)"
    and "\<exists>evs. trace (snd (split_one l a w)) = trace w @ evs \<and> Read (Legacy_file l) \<in> set evs"
proof -
  let ?w0 = "console_log (Lang_header l) w"
  have f0: "files ?w0 = files w" by (simp add: console_log_def files_emit)
  then have leg: "files ?w0 (Legacy_file l) = Some (Table ly ms)" using assms(1) by simp
  note sp = split_partition_on_plain_prefixes [OF leg assms(2)]
  from sp(1) obtain stats where "fst (splitLanguage l ?w0) = Inr stats" by blast
  then obtain w1 where s: "splitLanguage l ?w0 = (Inr stats, w1)"
    by (cases "splitLanguage l ?w0") auto
  let ?w2 = "foldl (\<lambda>w (ns, n). console_log (Ns_count ns n) w) w1 stats"
  have one: "split_one l a w = (Inr (obj_set a l stats), ?w2)"
    by (simp add: split_one_def s)
  have f2: "files ?w2 = files w1" by (rule files_foldl_console)
  show "\<exists>a'. fst (split_one l a w) = Inr a'" by (simp add: one)
  show "\<exists>m'. files (snd (split_one l a w)) (Ns_file l ns) = Some (Table Stringified m') \<and>
              fst ` set m' = partition_keys ms ns"
    if "ns \<in> set (NAMESPACES @ [''misc''])" "partition_keys ms ns \<noteq> {}"
    using sp(2) [OF that] by (simp add: one f2 s)
  show "files (snd (split_one l a w)) (Ns_file l ns) = files w (Ns_file l ns)"
    if "ns \<notin> set (NAMESPACES @ [''misc'']) \<or> partition_keys ms ns = {}"
    using sp(3) [OF that] by (simp add: one f2 s f0)
  from splitLanguage_reads [of l ?w0] obtain evs
    where "trace w1 = trace ?w0 @ Read (Legacy_file l) # evs" by (auto simp: s)
  moreover from trace_foldl_console [of Ns_count w1 stats] obtain evs'
    where "trace ?w2 = trace w1 @ evs'" by blast
  ultimately have "trace (snd (split_one l a w)) =
      trace w @ (Print (Lang_header l) # Read (Legacy_file l) # evs @ evs')"
    by (simp add: one console_log_def emit_def)
  then show "\<exists>evs. trace (snd (split_one l a w)) = trace w @ evs \<and> Read (Legacy_file l) \<in> set evs"
    by (intro exI [of _ "Print (Lang_header l) # Read (Legacy_file l) # evs @ evs'"]) simp
qed

lemma split_one_frame:
  "files (snd (split_one x a w)) (Legacy_file l) = files w (Legacy_file l)"
  "l \<noteq> x \<Longrightarrow> files (snd (split_one x a w)) (Ns_file l ns) = files w (Ns_file l ns)"
  "\<exists>evs. trace (snd (split_one x a w)) = trace w @ evs"
proof -
  have r: "run_within (split_event [x] [x]) (split_writes [x]) w (snd (split_one x a w))"
    by (rule run_within_split_one)
  then have fr: "split_writes [x] p \<or> files (snd (split_one x a w)) p = files w p" for p
    unfolding run_within_def by blast
  show "files (snd (split_one x a w)) (Legacy_file l) = files w (Legacy_file l)"
    using fr [of "Legacy_file l"] by simp
  show "l \<noteq> x \<Longrightarrow> files (snd (split_one x a w)) (Ns_file l ns) = files w (Ns_file l ns)"
    using fr [of "Ns_file l ns"] by simp
  show "\<exists>evs. trace (snd (split_one x a w)) = trace w @ evs"
    using r unfolding run_within_def by blast
qed

lemma split_loop_frame:
  "files (snd (fold_each split_one ls a w)) (Legacy_file l) = files w (Legacy_file l)"
  "l \<notin> set ls \<Longrightarrow> files (snd (fold_each split_one ls a w)) (Ns_file l ns) = files w (Ns_file l ns)"
  "\<exists>evs. trace (snd (fold_each split_one ls a w)) = trace w @ evs"
proof -
  have r: "run_within (split_event ls ls) (split_writes ls) w (snd (fold_each split_one ls a w))"
    by (rule run_within_split_loop)
  then have fr: "split_writes ls p \<or> files (snd (fold_each split_one ls a w)) p = files w p" for p
    unfolding run_within_def by blast
  show "files (snd (fold_each split_one ls a w)) (Legacy_file l) = files w (Legacy_file l)"
    using fr [of "Legacy_file l"] by simp
  show "l \<notin> set ls \<Longrightarrow> files (snd (fold_each split_one ls a w)) (Ns_file l ns) = files w (Ns_file l ns)"
    using fr [of "Ns_file l ns"] by simp
  show "\<exists>evs. trace (snd (fold_each split_one ls a w)) = trace w @ evs"
    using r unfolding run_within_def by blast
qed

lemma split_loop_plain:
  assumes "distinct ls"
    and "\<forall>l \<in> set ls. \<exists>ly ms. files w (Legacy_file l) = Some (Table ly ms) \<and>
           (\<forall>k \<in> fst ` set ms. first_segment k \<notin> set Object_prototype_names)"
  shows "(\<exists>a'. fst (fold_each split_one ls a w) = Inr a') \<and>
         (\<forall>l \<in> set ls. \<forall>ly ms ns. files w (Legacy_file l) = Some (Table ly ms) \<longrightarrow>
            (\<exists>evs. trace (snd (fold_each split_one ls a w)) = trace w @ evs \<and>
                   Read (Legacy_file l) \<in> set evs) \<and>
            (if ns \<in> set (NAMESPACES @ [''misc'']) \<and> partition_keys ms ns \<noteq> {}
             then \<exists>m'. files (snd (fold_each split_one ls a w)) (Ns_file l ns) =
                          Some (Table Stringified m') \<and> fst ` set m' = partition_keys ms ns
             else files (snd (fold_each split_one ls a w)) (Ns_file l ns) = files w (Ns_file l ns)))"
  using assms
proof (induction ls arbitrary: a w)
  case Nil
  show ?case by simp
next
  case (Cons x ls)
  from Cons.prems(2) obtain lx mx where x: "files w (Legacy_file x) = Some (Table lx mx)"
    "\<forall>k \<in> fst ` set mx. first_segment k \<notin> set Object_prototype_names" by auto
  note one = split_one_plain [OF x]
  from one(1) [of a] obtain a1 w1 where s: "split_one x a w = (Inr a1, w1)"
    by (cases "split_one x a w") auto
  have w1: "w1 = snd (split_one x a w)" by (simp add: s)
  have leg1: "files w1 (Legacy_file l) = files w (Legacy_file l)" for l
    unfolding w1 by (rule split_one_frame(1))
  have d: "distinct ls" "x \<notin> set ls" using Cons.prems(1) by auto
  have pre: "\<forall>l \<in> set ls. \<exists>ly ms. files w1 (Legacy_file l) = Some (Table ly ms) \<and>
           (\<forall>k \<in> fst ` set ms. first_segment k \<notin> set Object_prototype_names)"
    using Cons.prems(2) by (simp add: leg1)
  note IH = Cons.IH [OF d(1) pre, of a1]
  let ?r = "fold_each split_one ls a1 w1"
  have run: "fold_each split_one (x # ls) a w = ?r" by (simp add: s)
  from split_loop_frame(3) [of ls a1 w1] obtain evs where evs: "trace (snd ?r) = trace w1 @ evs"
    by blast
  have "(\<exists>evs. trace (snd ?r) = trace w @ evs \<and> Read (Legacy_file l) \<in> set evs) \<and>
        (if ns \<in> set (NAMESPACES @ [''misc'']) \<and> partition_keys ms ns \<noteq> {}
         then \<exists>m'. files (snd ?r) (Ns_file l ns) = Some (Table Stringified m') \<and>
                    fst ` set m' = partition_keys ms ns
         else files (snd ?r) (Ns_file l ns) = files w (Ns_file l ns))"
    if l: "l \<in> set (x # ls)" and m: "files w (Legacy_file l) = Some (Table ly ms)" for l ly ms ns
  proof (cases "l = x")
    case True
    have mx: "mx = ms" using x(1) m True by simp
    have keep: "files (snd ?r) (Ns_file x ns) = files w1 (Ns_file x ns)"
      by (rule split_loop_frame(2) [OF d(2)])
    from one(4) [of a] obtain ev1 where ev1: "trace w1 = trace w @ ev1" "Read (Legacy_file x) \<in> set ev1"
      by (auto simp: s)
    have "trace (snd ?r) = trace w @ (ev1 @ evs)" using evs ev1(1) by simp
    moreover have "Read (Legacy_file x) \<in> set (ev1 @ evs)" using ev1(2) by simp
    ultimately have rd: "\<exists>evs. trace (snd ?r) = trace w @ evs \<and> Read (Legacy_file x) \<in> set evs"
      by blast
    show ?thesis
    proof (cases "ns \<in> set (NAMESPACES @ [''misc'']) \<and> partition_keys ms ns \<noteq> {}")
      case part: True
      then have "\<exists>m'. files w1 (Ns_file x ns) = Some (Table Stringified m') \<and>
                   fst ` set m' = partition_keys ms ns"
        using one(2) [of ns a] by (simp add: s mx)
      then show ?thesis using part rd keep True by simp
    next
      case part: False
      then have "files w1 (Ns_file x ns) = files w (Ns_file x ns)"
        using one(3) [of ns a] by (auto simp: s mx)
      then show ?thesis using part rd keep True by auto
    qed
  next
    case False
    with l have l': "l \<in> set ls" by simp
    have m1: "files w1 (Legacy_file l) = Some (Table ly ms)" using m by (simp add: leg1)
    have same: "files w1 (Ns_file l ns) = files w (Ns_file l ns)"
      unfolding w1 by (rule split_one_frame(2) [OF False])
    from split_one_frame(3) [of x a w] obtain ev1 where ev1: "trace w1 = trace w @ ev1"
      by (auto simp: s)
    from IH l' m1 obtain ev2 where ev2: "trace (snd ?r) = trace w1 @ ev2" "Read (Legacy_file l) \<in> set ev2"
      by blast
    have "trace (snd ?r) = trace w @ (ev1 @ ev2)" using ev1 ev2(1) by simp
    moreover have "Read (Legacy_file l) \<in> set (ev1 @ ev2)" using ev2(2) by simp
    ultimately have rd: "\<exists>evs. trace (snd ?r) = trace w @ evs \<and> Read (Legacy_file l) \<in> set evs"
      by blast
    from IH l' m1 have
      "if ns \<in> set (NAMESPACES @ [''misc'']) \<and> partition_keys ms ns \<noteq> {}
         then \<exists>m'. files (snd ?r) (Ns_file l ns) = Some (Table Stringified m') \<and>
                    fst ` set m' = partition_keys ms ns
         else files (snd ?r) (Ns_file l ns) = files w1 (Ns_file l ns)"
      by blast
    then show ?thesis using rd unfolding same by blast
  qed
  moreover have "\<exists>a'. fst ?r = Inr a'" using IH by blast
  ultimately show ?case unfolding run by blast
qed

text \<open>
  Claim C7 (splitter failure isolation), as the code has it: \<open>main\<close> calls \<open>splitLanguage\<close>
  in a plain loop without any handler, so a missing or malformed legacy file ends the whole
  run with an error. The locales after the failing one in \<open>LANGUAGES\<close> are never read, and
  no namespace file is written for the failing locale or for any later one. If moreover
  every locale before the failing one has a legacy file that parses and has no key with an
  inherited property name as its prefix (so that none of them fails first), the error is
  that of the failing locale's file, and the locales before it have been processed: among
  the events of the run are the reads of their legacy files and of the failing one, and at
  the end each of them has a file for every namespace with a non-empty partition, holding
  exactly the keys of that partition, and its other namespace files as they were.
\<close>

theorem splitter_aborts_at_unreadable_locale:
  assumes "LANGUAGES = before @ l # after"
    and "files w (Legacy_file l) = None \<or> files w (Legacy_file l) = Some Malformed"
  shows "fst (main_split w) \<noteq> None \<and>
         (\<exists>evs. trace (snd (main_split w)) = trace w @ evs \<and>
                (\<forall>l' \<in> set after. Read (Legacy_file l') \<notin> set evs) \<and>
                (\<forall>l' \<in> set (l # after). \<forall>n c. Write (Ns_file l' n) c \<notin> set evs) \<and>
                ((\<forall>l' \<in> set before. \<exists>ly ms. files w (Legacy_file l') = Some (Table ly ms) \<and>
                     (\<forall>k \<in> fst ` set ms. first_segment k \<notin> set Object_prototype_names)) \<longrightarrow>
                 (\<forall>l' \<in> set (before @ [l]). Read (Legacy_file l') \<in> set evs))) \<and>
         (\<forall>l' \<in> set (l # after). \<forall>n.
            files (snd (main_split w)) (Ns_file l' n) = files w (Ns_file l' n)) \<and>
         ((\<forall>l' \<in> set before. \<exists>ly ms. files w (Legacy_file l') = Some (Table ly ms) \<and>
              (\<forall>k \<in> fst ` set ms. first_segment k \<notin> set Object_prototype_names)) \<longrightarrow>
          fst (main_split w) =
            Some (if files w (Legacy_file l) = None then ENOENT (Legacy_file l)
                  else SyntaxError (Legacy_file l)) \<and>
          (\<forall>l' \<in> set before. \<forall>ly ms ns. files w (Legacy_file l') = Some (Table ly ms) \<longrightarrow>
             (if ns \<in> set (NAMESPACES @ [''misc'']) \<and> partition_keys ms ns \<noteq> {}
              then \<exists>m'. files (snd (main_split w)) (Ns_file l' ns) = Some (Table Stringified m') \<and>
                         fst ` set m' = partition_keys ms ns
              else files (snd (main_split w)) (Ns_file l' ns) = files w (Ns_file l' ns))))"
proof -
  let ?P = "split_event (before @ [l]) before" and ?W = "split_writes before"
  let ?w1 = "console_log (Split_ns_count (length NAMESPACES + 1))
               (console_log (Split_targets LANGUAGES) (console_log Split_start w))"
  let ?ok = "\<forall>l' \<in> set before. \<exists>ly ms. files w (Legacy_file l') = Some (Table ly ms) \<and>
              (\<forall>k \<in> fst ` set ms. first_segment k \<notin> set Object_prototype_names)"
  let ?err = "if files w (Legacy_file l) = None then ENOENT (Legacy_file l)
              else SyntaxError (Legacy_file l)"
  have f1: "files ?w1 = files w" by (simp add: console_log_def files_emit)
  obtain ev0 where ev0: "trace ?w1 = trace w @ ev0"
    by (simp add: console_log_def emit_def)
  have 1: "run_within ?P ?W w ?w1"
    by (auto simp: run_within_def console_log_def emit_def)
  have bad: "files ?w1 (Legacy_file l) = None \<or> files ?w1 (Legacy_file l) = Some Malformed"
    unfolding f1 by (rule assms(2))
  from split_loop_aborts [OF bad, of before after "[]"]
  obtain e where e: "fst (fold_each split_one (before @ l # after) [] ?w1) = Inl e"
    and 2: "run_within ?P ?W ?w1 (snd (fold_each split_one (before @ l # after) [] ?w1))"
    by blast
  obtain w2 where w2: "fold_each split_one LANGUAGES [] ?w1 = (Inl e, w2)"
    using e assms(1) by (cases "fold_each split_one LANGUAGES [] ?w1") auto
  then have m: "main_split w = (Some e, w2)" by (simp add: main_split_def Let_def)
  have "run_within ?P ?W w w2" using run_within_trans [OF 1 2] w2 assms(1) by simp
  then obtain evs where evs: "trace w2 = trace w @ evs" "list_all ?P evs"
    and fr: "\<And>p. \<not> ?W p \<Longrightarrow> files w2 p = files w p"
    unfolding run_within_def by blast
  have d: "distinct (before @ l # after)" using distinct_LANGUAGES assms(1) by simp
  have later: "l' \<notin> set before" if "l' \<in> set (l # after)" for l' using that d by auto
  have after: "l' \<notin> set (before @ [l])" if "l' \<in> set after" for l' using that d by auto
  have r: "Read (Legacy_file l') \<notin> set evs" if "l' \<in> set after" for l'
  proof
    assume "Read (Legacy_file l') \<in> set evs"
    with evs(2) have "?P (Read (Legacy_file l'))" by (auto simp: list_all_iff)
    then show False using after [OF that] by simp
  qed
  have wr: "Write (Ns_file l' n) c \<notin> set evs" if "l' \<in> set (l # after)" for l' n c
  proof
    assume "Write (Ns_file l' n) c \<in> set evs"
    with evs(2) have "?P (Write (Ns_file l' n) c)" by (auto simp: list_all_iff)
    then show False using later [OF that] by simp
  qed
  have fs: "files w2 (Ns_file l' n) = files w (Ns_file l' n)" if "l' \<in> set (l # after)" for l' n
    by (rule fr) (use later [OF that] in simp)
  have first: "e = ?err \<and>
      (\<forall>l' \<in> set (before @ [l]). Read (Legacy_file l') \<in> set evs) \<and>
      (\<forall>l' \<in> set before. \<forall>ly ms ns. files w (Legacy_file l') = Some (Table ly ms) \<longrightarrow>
         (if ns \<in> set (NAMESPACES @ [''misc'']) \<and> partition_keys ms ns \<noteq> {}
          then \<exists>m'. files w2 (Ns_file l' ns) = Some (Table Stringified m') \<and>
                     fst ` set m' = partition_keys ms ns
          else files w2 (Ns_file l' ns) = files w (Ns_file l' ns)))"
    if ok: ?ok
  proof -
    have db: "distinct before" using d by simp
    define v where "v = ?w1"
    have f1: "files v = files w" unfolding v_def by (rule f1)
    have ev0: "trace v = trace w @ ev0" unfolding v_def by (rule ev0)
    have w2: "fold_each split_one LANGUAGES [] v = (Inl e, w2)" unfolding v_def by (rule w2)
    have ok1: "\<forall>l' \<in> set before. \<exists>ly ms. files v (Legacy_file l') = Some (Table ly ms) \<and>
              (\<forall>k \<in> fst ` set ms. first_segment k \<notin> set Object_prototype_names)"
      unfolding f1 by (rule ok)
    note lp = split_loop_plain [OF db ok1, of "[]"]
    let ?rb = "fold_each split_one before [] v"
    from lp obtain a' where "fst ?rb = Inr a'" by blast
    then obtain wb where rb: "?rb = (Inr a', wb)" by (cases ?rb) auto
    have wb: "wb = snd ?rb" by (simp add: rb)
    have legb: "files wb (Legacy_file l) = files w (Legacy_file l)"
      unfolding wb using split_loop_frame(1) [of before "[]" v l] by (simp only: f1)
    then have badb: "files wb (Legacy_file l) = None \<or> files wb (Legacy_file l) = Some Malformed"
      using assms(2) by simp
    let ?w3 = "emit (Read (Legacy_file l)) (console_log (Lang_header l) wb)"
    have one: "split_one l a' wb = (Inl ?err, ?w3)"
      using split_one_unreadable_error [OF badb, of a'] unfolding legb .
    have "fold_each split_one (before @ l # after) [] v = (Inl ?err, ?w3)"
      by (simp add: fold_each_append rb one)
    with w2 assms(1) have e_eq: "e = ?err" and w2_eq: "w2 = ?w3" by simp_all
    have f3: "files w2 = files wb" by (simp add: w2_eq console_log_def files_emit)
    have t3: "trace w2 = trace wb @ [Print (Lang_header l), Read (Legacy_file l)]"
      by (simp add: w2_eq console_log_def emit_def)
    have reads: "Read (Legacy_file l') \<in> set evs" if l': "l' \<in> set (before @ [l])" for l'
    proof (cases "l' = l")
      case True
      from split_loop_frame(3) [of before "[]" v] obtain evb where "trace wb = trace v @ evb"
        by (auto simp: rb)
      then have "trace w2 = trace w @ (ev0 @ evb @ [Print (Lang_header l), Read (Legacy_file l)])"
        using t3 ev0 by simp
      with evs(1) have "evs = ev0 @ evb @ [Print (Lang_header l), Read (Legacy_file l)]" by simp
      then show ?thesis using True by simp
    next
      case False
      with l' have lb: "l' \<in> set before" by simp
      with ok1 obtain ly ms where "files v (Legacy_file l') = Some (Table ly ms)" by blast
      with lp lb obtain evb where evb: "trace wb = trace v @ evb" "Read (Legacy_file l') \<in> set evb"
        unfolding wb by blast
      then have "trace w2 = trace w @ (ev0 @ evb @ [Print (Lang_header l), Read (Legacy_file l)])"
        using t3 ev0 by simp
      with evs(1) have "evs = ev0 @ evb @ [Print (Lang_header l), Read (Legacy_file l)]" by simp
      then show ?thesis using evb(2) by simp
    qed
    have parts: "if ns \<in> set (NAMESPACES @ [''misc'']) \<and> partition_keys ms ns \<noteq> {}
          then \<exists>m'. files w2 (Ns_file l' ns) = Some (Table Stringified m') \<and>
                     fst ` set m' = partition_keys ms ns
          else files w2 (Ns_file l' ns) = files w (Ns_file l' ns)"
      if lb: "l' \<in> set before" and ms: "files w (Legacy_file l') = Some (Table ly ms)"
      for l' ly ms ns
    proof -
      have "files v (Legacy_file l') = Some (Table ly ms)" using ms by (simp only: f1)
      with lp lb have
        "if ns \<in> set (NAMESPACES @ [''misc'']) \<and> partition_keys ms ns \<noteq> {}
         then \<exists>m'. files (snd ?rb) (Ns_file l' ns) = Some (Table Stringified m') \<and>
                    fst ` set m' = partition_keys ms ns
         else files (snd ?rb) (Ns_file l' ns) = files v (Ns_file l' ns)"
        by blast
      then show ?thesis unfolding f3 wb f1 .
    qed
    show ?thesis using e_eq reads parts by blast
  qed
  have A: "fst (main_split w) \<noteq> None" by (simp add: m)
  have B: "\<exists>evs. trace (snd (main_split w)) = trace w @ evs \<and>
                (\<forall>l' \<in> set after. Read (Legacy_file l') \<notin> set evs) \<and>
                (\<forall>l' \<in> set (l # after). \<forall>n c. Write (Ns_file l' n) c \<notin> set evs) \<and>
                (?ok \<longrightarrow> (\<forall>l' \<in> set (before @ [l]). Read (Legacy_file l') \<in> set evs))"
    using evs(1) r wr first unfolding m by (intro exI [of _ evs]) (simp only: snd_conv, blast)
  have C: "\<forall>l' \<in> set (l # after). \<forall>n.
            files (snd (main_split w)) (Ns_file l' n) = files w (Ns_file l' n)"
    using fs by (simp only: m snd_conv) blast
  have D: "?ok \<longrightarrow>
          fst (main_split w) = Some ?err \<and>
          (\<forall>l' \<in> set before. \<forall>ly ms ns. files w (Legacy_file l') = Some (Table ly ms) \<longrightarrow>
             (if ns \<in> set (NAMESPACES @ [''misc'']) \<and> partition_keys ms ns \<noteq> {}
              then \<exists>m'. files (snd (main_split w)) (Ns_file l' ns) = Some (Table Stringified m') \<and>
                         fst ` set m' = partition_keys ms ns
              else files (snd (main_split w)) (Ns_file l' ns) = files w (Ns_file l' ns)))"
    using first by (simp only: m fst_conv snd_conv) blast
  from A B C D show ?thesis by (intro conjI)
qed

lemma split_tree_classified:
  "first_segment ''common.ok'' \<notin> set Object_prototype_names"
  "first_segment ''zzz.other'' \<notin> set Object_prototype_names"
  "getNamespace ''common.ok'' = Str ''common''"
  "getNamespace ''zzz.other'' = Str ''misc''"
  by code_simp+

theorem splitter_aborts_at_unreadable_locale_witness:
  "LANGUAGES = [''en''] @ ''ko'' # [''ja'', ''zh-CN'', ''zh-TW''] \<and>
   files split_tree (Legacy_file ''ko'') = None \<and>
   files split_tree (Legacy_file ''en'') =
     Some (Table Stringified [(''common.ok'', ''OK''), (''zzz.other'', ''Z'')]) \<and>
   fst (main_split split_tree) = Some (ENOENT (Legacy_file ''ko'')) \<and>
   (\<exists>m'. files (snd (main_split split_tree)) (Ns_file ''en'' ''misc'') = Some (Table Stringified m') \<and>
         fst ` set m' = {''zzz.other''}) \<and>
   files (snd (main_split split_tree)) (Ns_file ''ja'' ''common'') =
     files split_tree (Ns_file ''ja'' ''common'')"
proof -
  let ?ms = "[(''common.ok'', ''OK''), (''zzz.other'', ''Z'')]"
  have h1: "LANGUAGES = [''en''] @ ''ko'' # [''ja'', ''zh-CN'', ''zh-TW'']"
    by (simp add: LANGUAGES_def)
  have h2: "files split_tree (Legacy_file ''ko'') = None" by (simp add: split_tree_def)
  have en: "files split_tree (Legacy_file ''en'') = Some (Table Stringified ?ms)"
    by (simp add: split_tree_def)
  have ok: "\<forall>l' \<in> set [''en'']. \<exists>ly ms. files split_tree (Legacy_file l') = Some (Table ly ms) \<and>
              (\<forall>k \<in> fst ` set ms. first_segment k \<notin> set Object_prototype_names)"
    by (simp add: en split_tree_classified)
  have part: "partition_keys ?ms ''misc'' = {''zzz.other''}"
    by (auto simp: partition_keys_def split_tree_classified)
  have misc: "''misc'' \<in> set (NAMESPACES @ [''misc''])" by simp
  note t = splitter_aborts_at_unreadable_locale [OF h1 disjI1 [OF h2]]
  from t ok have err: "fst (main_split split_tree) = Some (ENOENT (Legacy_file ''ko''))"
    by (simp add: h2)
  from t ok have "\<forall>l' \<in> set [''en'']. \<forall>ly ms ns. files split_tree (Legacy_file l') = Some (Table ly ms) \<longrightarrow>
             (if ns \<in> set (NAMESPACES @ [''misc'']) \<and> partition_keys ms ns \<noteq> {}
              then \<exists>m'. files (snd (main_split split_tree)) (Ns_file l' ns) = Some (Table Stringified m') \<and>
                         fst ` set m' = partition_keys ms ns
              else files (snd (main_split split_tree)) (Ns_file l' ns) = files split_tree (Ns_file l' ns))"
    by blast
  then have "if ''misc'' \<in> set (NAMESPACES @ [''misc'']) \<and> partition_keys ?ms ''misc'' \<noteq> {}
              then \<exists>m'. files (snd (main_split split_tree)) (Ns_file ''en'' ''misc'') = Some (Table Stringified m') \<and>
                         fst ` set m' = partition_keys ?ms ''misc''
              else files (snd (main_split split_tree)) (Ns_file ''en'' ''misc'') = files split_tree (Ns_file ''en'' ''misc'')"
    using en by (simp del: set_append)
  then have out: "\<exists>m'. files (snd (main_split split_tree)) (Ns_file ''en'' ''misc'') = Some (Table Stringified m') \<and>
         fst ` set m' = {''zzz.other''}"
    unfolding part using misc by simp
  from t have ja: "files (snd (main_split split_tree)) (Ns_file ''ja'' ''common'') =
     files split_tree (Ns_file ''ja'' ''common'')"
    by simp
  from h1 h2 en err out ja show ?thesis by blast
qed

text \<open>
  Claim C7 as stated fails: on the tree below the Korean legacy file is missing while the
  Japanese one is well-formed. The run ends with the error of the Korean read; the English
  locale, processed before, has its files, but the Japanese legacy file is never read and no
  Japanese namespace file is produced.
\<close>

theorem failure_isolation_counterexample:
  "files split_tree (Legacy_file ''ja'') = Some (Table Stringified [(''common.ok'', ''JA'')]) \<and>
   fst (main_split split_tree) = Some (ENOENT (Legacy_file ''ko'')) \<and>
   files (snd (main_split split_tree)) (Ns_file ''en'' ''common'') =
     Some (Table Stringified [(''common.ok'', ''OK'')]) \<and>
   files (snd (main_split split_tree)) (Ns_file ''ja'' ''common'') = None \<and>
   filter (\<lambda>e. case e of Read p \<Rightarrow> True | Write p c \<Rightarrow> True | _ \<Rightarrow> False)
     (trace (snd (main_split split_tree))) =
     [Read (Legacy_file ''en''),
      Write (Ns_file ''en'' ''common'') (Table Stringified [(''common.ok'', ''OK'')]),
      Write (Ns_file ''en'' ''misc'') (Table Stringified [(''zzz.other'', ''Z'')]),
      Read (Legacy_file ''ko'')]"
  by code_simp

end
